theory Spec2Isabelle
  imports Main "HOL-Library.AList" "HOL-Library.Multiset" "HOL-Library.Char_ord"
    "HOL-Library.List_Lexorder"
begin

section \<open>JavaScript values, objects and array primitives\<close>

text \<open>
  Component data is \<^verbatim>\<open>any\<close> in the source. The values below are the JavaScript values
  the model distinguishes; \<open>JUndefined\<close> is JavaScript's \<^verbatim>\<open>undefined\<close>. Strings are
  byte strings and are ordered lexicographically, as the default comparison of
  \<^verbatim>\<open>Array.prototype.sort\<close> orders strings.
\<close>

datatype jsval = JUndefined | JNull | JBool bool | JNum int | JStr string | JRef nat

type_synonym ComponentName = string
type_synonym ComponentData = jsval

text \<open>
  An entity object is the list of its own properties in insertion order, without
  repeated keys; an entity is referred to by its address in the store of objects.
  Entities are plain records: properties inherited from a prototype are not modelled.
\<close>

type_synonym obj = "(ComponentName \<times> ComponentData) list"
type_synonym Entity = nat

text \<open>\<^verbatim>\<open>name in entity\<close>\<close>

definition has_property :: "ComponentName \<Rightarrow> obj \<Rightarrow> bool" where
  "has_property name entity = (map_of entity name \<noteq> None)"

text \<open>\<^verbatim>\<open>entity[name]\<close>: a missing property reads as \<^verbatim>\<open>undefined\<close>.\<close>

definition property :: "obj \<Rightarrow> ComponentName \<Rightarrow> ComponentData" where
  "property entity name = (case map_of entity name of None \<Rightarrow> JUndefined | Some v \<Rightarrow> v)"

text \<open>\<^verbatim>\<open>entity[name] = data\<close> and \<^verbatim>\<open>delete entity[name]\<close>\<close>

definition assign :: "ComponentName \<Rightarrow> ComponentData \<Rightarrow> obj \<Rightarrow> obj" where
  "assign name data entity = AList.update name data entity"

definition delete_property :: "ComponentName \<Rightarrow> obj \<Rightarrow> obj" where
  "delete_property name entity = AList.delete name entity"

text \<open>\<^verbatim>\<open>Object.keys(entity)\<close>\<close>

definition Object_keys :: "obj \<Rightarrow> ComponentName list" where
  "Object_keys entity = map fst entity"

text \<open>\<^verbatim>\<open>xs.indexOf(x, 0)\<close>: the first position of \<open>x\<close>, or \<open>-1\<close>.\<close>

fun indexOf :: "'a list \<Rightarrow> 'a \<Rightarrow> int" where
  "indexOf [] x = - 1"
| "indexOf (y # ys) x =
     (if y = x then 0 else (let i = indexOf ys x in if i < 0 then - 1 else i + 1))"

text \<open>
  \<^verbatim>\<open>xs.splice(start, deleteCount)\<close>, the array afterwards. A negative \<open>start\<close> counts
  from the end of the array (\<open>max (len + start) 0\<close>), a \<open>start\<close> beyond the end is the end.
\<close>

definition Array_splice :: "'a list \<Rightarrow> int \<Rightarrow> nat \<Rightarrow> 'a list" where
  "Array_splice xs start deleteCount =
     (let len = int (length xs);
          s = (if start < 0 then max (len + start) 0 else min start len)
      in take (nat s) xs @ drop (nat s + deleteCount) xs)"

section \<open>The world of \<^verbatim>\<open>src/ecs.ts\<close>\<close>

text \<open>
  An archetype is an array of component names; the world uses the array object itself
  as the key of its maps, so an archetype is the address of an array.
\<close>

type_synonym Archetype = nat
type_synonym callback = nat

text \<open>
  Modelled from the spec: \<^verbatim>\<open>util/ListenerRegistry\<close> is missing from the sources. The spec
  gives a registry as the ordered set of registered zero-argument callbacks;
  \<^verbatim>\<open>invoke()\<close> takes a snapshot of them and calls each once, in registration order.
\<close>

type_synonym ListenerRegistry = "callback list"

text \<open>
  Modelled from the spec: the thunks held by \<^verbatim>\<open>util/commandQueue\<close> (missing from the
  sources). Each closure that \<^verbatim>\<open>ecs.ts\<close> enqueues calls one function of
  \<^verbatim>\<open>immediately\<close> with the operands it captured; the closure is represented by that call.
\<close>

datatype command =
    is_CmdAddEntity: CmdAddEntity Entity
  | CmdRemoveEntity Entity
  | CmdAddComponent Entity ComponentName ComponentData
  | CmdRemoveComponent Entity "ComponentName list"

text \<open>
  What the source throws: the string thrown by \<^verbatim>\<open>immediately.addEntity\<close> (the spec's
  DuplicateIdentifier condition), and the \<^verbatim>\<open>TypeError\<close> of reading a property of
  \<^verbatim>\<open>undefined\<close>.
\<close>

datatype error = DuplicateIdentifier | TypeError

text \<open>
  The variables closed over by \<^verbatim>\<open>createWorld\<close>, with the store of entity objects and of
  archetype arrays they point into. \<open>archetypes\<close> is a JavaScript \<^verbatim>\<open>Map\<close>, iterated in
  insertion order: an association list. \<open>notified\<close> is the record of the calls of
  \<^verbatim>\<open>invoke()\<close> so far: the archetype whose registry was invoked, with the callbacks called.
\<close>

record world =
  objects :: "Entity \<Rightarrow> obj"
  arrays :: "Archetype \<rightharpoonup> ComponentName list"
  nextRef :: Archetype
  entities :: "Entity list"
  nextId :: int
  archetypes :: "(Archetype \<times> Entity list) list"
  listeners :: "Archetype \<rightharpoonup> ListenerRegistry"
  queue :: "command list"
  memoizedArchetypes :: "ComponentName list \<rightharpoonup> Archetype"
  notified :: "(Archetype \<times> callback list) list"

text \<open>
  \<^verbatim>\<open>createWorld\<close>, in a program whose entity objects are \<open>objs\<close>.
  Modelled from the spec: \<^verbatim>\<open>idGenerator(1)\<close> (missing from the sources) yields increasing
  integers, starting with its argument.
\<close>

definition createWorld :: "(Entity \<Rightarrow> obj) \<Rightarrow> world" where
  "createWorld objs =
     \<lparr> objects = objs, arrays = Map.empty, nextRef = 0, entities = [], nextId = 1,
       archetypes = [], listeners = Map.empty, queue = [], memoizedArchetypes = Map.empty,
       notified = [] \<rparr>"

text \<open>The component names held by an archetype array.\<close>

definition names_of :: "world \<Rightarrow> Archetype \<Rightarrow> ComponentName list" where
  "names_of w archetype = (case arrays w archetype of None \<Rightarrow> [] | Some ns \<Rightarrow> ns)"

text \<open>
  Modelled from the spec: \<^verbatim>\<open>util/entityIsArchetype\<close> is missing from the sources. The
  spec's membership rule: the entity holds a defined value for every component name of
  the archetype.
\<close>

definition entityIsArchetype :: "obj \<Rightarrow> ComponentName list \<Rightarrow> bool" where
  "entityIsArchetype entity archetype =
     list_all (\<lambda>name. property entity name \<noteq> JUndefined) archetype"

text \<open>
  Modelled from the spec: \<^verbatim>\<open>util/memoizedMap\<close> is missing from the sources, and with it
  the key under which \<^verbatim>\<open>fetch\<close> caches a list; \<^verbatim>\<open>createArchetype\<close> itself only sorts
  the list. The spec gives the utility as a key-to-value cache, keyed for canonicalized
  lists, in which the same logical key always yields the same cached value by reference,
  and gives two archetypes with equal sets of names as the identical object. So the
  logical key of a list is its canonical form, sorted and without duplicates; \<open>fetch\<close>
  returns the cached value of the key, and caches the offered value when the key has none.
\<close>

definition logical_key :: "'a::linorder list \<Rightarrow> 'a list" where
  "logical_key k = remdups (sort k)"

definition fetch :: "('a::linorder list \<rightharpoonup> 'v) \<Rightarrow> 'a list \<Rightarrow> 'v \<Rightarrow> 'v \<times> ('a list \<rightharpoonup> 'v)" where
  "fetch cache k v =
     (case cache (logical_key k) of
        Some c \<Rightarrow> (c, cache)
      | None \<Rightarrow> (v, cache(logical_key k \<mapsto> v)))"

text \<open>
  \<^verbatim>\<open>createArchetype(...components)\<close>. The rest parameter is a new array at every call;
  \<^verbatim>\<open>sort()\<close> sorts it in place, and it becomes the archetype when the cache has none
  for its contents.
\<close>

definition createArchetype :: "world \<Rightarrow> ComponentName list \<Rightarrow> Archetype \<times> world" where
  "createArchetype w components =
     (let normalized = nextRef w;
          w1 = w\<lparr> arrays := (arrays w)(normalized \<mapsto> sort components),
                  nextRef := nextRef w + 1 \<rparr>;
          (archetype, cache) = fetch (memoizedArchetypes w1) (sort components) normalized;
          w2 = w1\<lparr> memoizedArchetypes := cache \<rparr>
      in if map_of (archetypes w2) archetype = None
         then (archetype,
               w2\<lparr> archetypes := archetypes w2 @
                      [(archetype,
                        filter (\<lambda>entity. entityIsArchetype (objects w2 entity) (names_of w2 archetype))
                          (entities w2))],
                    listeners := (listeners w2)(archetype \<mapsto> []) \<rparr>)
         else (archetype, w2))"

text \<open>
  \<^verbatim>\<open>get\<close>, \<^verbatim>\<open>getOne\<close>, \<^verbatim>\<open>getWith\<close>. \<^verbatim>\<open>Map.get\<close> of a missing key is
  \<^verbatim>\<open>undefined\<close> (\<open>None\<close>; the \<^verbatim>\<open>!\<close> of the source is erased at compile time), and
  indexing \<^verbatim>\<open>undefined\<close> throws. Element 0 of an empty array is \<^verbatim>\<open>undefined\<close>.
\<close>

definition get :: "world \<Rightarrow> Archetype \<Rightarrow> Entity list option \<times> world" where
  "get w archetype = (map_of (archetypes w) archetype, w)"

definition getOne :: "world \<Rightarrow> Archetype \<Rightarrow> error + (Entity option \<times> world)" where
  "getOne w archetype =
     (case map_of (archetypes w) archetype of
        None \<Rightarrow> Inl TypeError
      | Some index \<Rightarrow> Inr (case index of [] \<Rightarrow> None | entity # _ \<Rightarrow> Some entity, w))"

definition getWith :: "world \<Rightarrow> ComponentName list \<Rightarrow> Entity list option \<times> world" where
  "getWith w components = (let (archetype, w') = createArchetype w components in get w' archetype)"

text \<open>
  \<^verbatim>\<open>listeners.archetypeChanged.get(archetype)!.invoke()\<close>: a \<^verbatim>\<open>TypeError\<close> when the
  archetype has no registry.
\<close>

definition invoke :: "Archetype \<Rightarrow> world \<Rightarrow> error + world" where
  "invoke archetype w =
     (case listeners w archetype of
        None \<Rightarrow> Inl TypeError
      | Some registry \<Rightarrow> Inr (w\<lparr> notified := notified w @ [(archetype, registry)] \<rparr>))"

text \<open>The index of an archetype of the map, and \<^verbatim>\<open>for (... of archetypes.entries())\<close>.\<close>

definition index_of :: "world \<Rightarrow> Archetype \<Rightarrow> Entity list" where
  "index_of w archetype = (case map_of (archetypes w) archetype of None \<Rightarrow> [] | Some index \<Rightarrow> index)"

definition set_index :: "Archetype \<Rightarrow> Entity list \<Rightarrow> world \<Rightarrow> world" where
  "set_index archetype index w = w\<lparr> archetypes := AList.update archetype index (archetypes w) \<rparr>"

fun for_each :: "(Archetype \<Rightarrow> world \<Rightarrow> error + world) \<Rightarrow> Archetype list \<Rightarrow> world \<Rightarrow> error + world" where
  "for_each body [] w = Inr w"
| "for_each body (archetype # rest) w =
     (case body archetype w of Inl e \<Rightarrow> Inl e | Inr w' \<Rightarrow> for_each body rest w')"

text \<open>The body of the loop of \<^verbatim>\<open>indexEntityWithNewComponents\<close>, and the function.\<close>

definition index_new :: "Entity \<Rightarrow> ComponentName list \<Rightarrow> Archetype \<Rightarrow> world \<Rightarrow> error + world" where
  "index_new entity addedComponents archetype w =
     (if list_ex (\<lambda>indexedComponent. indexedComponent \<in> set addedComponents) (names_of w archetype)
      then if entityIsArchetype (objects w entity) (names_of w archetype)
              \<and> entity \<notin> set (index_of w archetype)
           then invoke archetype (set_index archetype (index_of w archetype @ [entity]) w)
           else Inr w
      else Inr w)"

definition indexEntityWithNewComponents :: "Entity \<Rightarrow> ComponentName list \<Rightarrow> world \<Rightarrow> error + world" where
  "indexEntityWithNewComponents entity addedComponents w =
     for_each (index_new entity addedComponents) (map fst (archetypes w)) w"

text \<open>The body of the loop of \<^verbatim>\<open>indexEntityWithRemovedComponents\<close>, and the function.\<close>

definition index_removed :: "Entity \<Rightarrow> ComponentName list \<Rightarrow> Archetype \<Rightarrow> world \<Rightarrow> error + world" where
  "index_removed entity removedComponents archetype w =
     (if list_ex (\<lambda>indexedComponent. indexedComponent \<in> set removedComponents) (names_of w archetype)
      then if \<not> entityIsArchetype (objects w entity) (names_of w archetype)
           then invoke archetype
                  (set_index archetype
                     (Array_splice (index_of w archetype) (indexOf (index_of w archetype) entity) 1) w)
           else Inr w
      else Inr w)"

definition indexEntityWithRemovedComponents :: "Entity \<Rightarrow> ComponentName list \<Rightarrow> world \<Rightarrow> error + world" where
  "indexEntityWithRemovedComponents entity removedComponents w =
     for_each (index_removed entity removedComponents) (map fst (archetypes w)) w"

text \<open>The body of the loop of \<^verbatim>\<open>removeEntityFromAllIndices\<close>, and the function.\<close>

definition remove_from_index :: "Entity \<Rightarrow> Archetype \<Rightarrow> world \<Rightarrow> error + world" where
  "remove_from_index entity archetype w =
     (let pos = indexOf (index_of w archetype) entity
      in if pos \<ge> 0
         then invoke archetype (set_index archetype (Array_splice (index_of w archetype) pos 1) w)
         else Inr w)"

definition removeEntityFromAllIndices :: "Entity \<Rightarrow> world \<Rightarrow> error + world" where
  "removeEntityFromAllIndices entity w =
     for_each (remove_from_index entity) (map fst (archetypes w)) w"

text \<open>Writing an entity object.\<close>

definition update_object :: "Entity \<Rightarrow> (obj \<Rightarrow> obj) \<Rightarrow> world \<Rightarrow> world" where
  "update_object entity f w = w\<lparr> objects := (objects w)(entity := f (objects w entity)) \<rparr>"

text \<open>The functions of \<^verbatim>\<open>immediately\<close>.\<close>

definition immediately_addEntity :: "world \<Rightarrow> Entity \<Rightarrow> error + (Entity \<times> world)" where
  "immediately_addEntity w entity =
     (if has_property ''id'' (objects w entity) then Inl DuplicateIdentifier
      else
        let w1 = update_object entity (assign ''id'' (JNum (nextId w))) (w\<lparr> nextId := nextId w + 1 \<rparr>);
            w2 = w1\<lparr> entities := entities w1 @ [entity] \<rparr>
        in case indexEntityWithNewComponents entity (Object_keys (objects w2 entity)) w2 of
             Inl e \<Rightarrow> Inl e
           | Inr w3 \<Rightarrow> Inr (entity, w3))"

definition immediately_removeEntity :: "world \<Rightarrow> Entity \<Rightarrow> error + world" where
  "immediately_removeEntity w entity =
     (case removeEntityFromAllIndices entity w of
        Inl e \<Rightarrow> Inl e
      | Inr w1 \<Rightarrow>
          let w2 = update_object entity (delete_property ''id'') w1;
              pos = indexOf (entities w2) entity
          in Inr (w2\<lparr> entities := Array_splice (entities w2) pos 1 \<rparr>))"

definition immediately_addComponent ::
    "world \<Rightarrow> Entity \<Rightarrow> ComponentName \<Rightarrow> ComponentData \<Rightarrow> error + world" where
  "immediately_addComponent w entity name data =
     indexEntityWithNewComponents entity [name] (update_object entity (assign name data) w)"

definition immediately_removeComponent :: "world \<Rightarrow> Entity \<Rightarrow> ComponentName list \<Rightarrow> error + world" where
  "immediately_removeComponent w entity components =
     indexEntityWithRemovedComponents entity components
       (update_object entity (\<lambda>entity. fold delete_property components entity) w)"

text \<open>
  Modelled from the spec: \<^verbatim>\<open>util/commandQueue\<close> is missing from the sources. The spec
  gives a first-in first-out buffer of thunks: \<open>add\<close> appends, \<open>flush\<close> executes all queued
  thunks in enqueue order and then empties the queue, \<open>clear\<close> empties the queue without
  executing it. A thunk that throws ends the flush with its error.
\<close>

definition queue_add :: "command \<Rightarrow> world \<Rightarrow> world" where
  "queue_add c w = w\<lparr> queue := queue w @ [c] \<rparr>"

definition queue_clear :: "world \<Rightarrow> world" where
  "queue_clear w = w\<lparr> queue := [] \<rparr>"

fun execute :: "command \<Rightarrow> world \<Rightarrow> error + world" where
  "execute (CmdAddEntity entity) w =
     (case immediately_addEntity w entity of Inl e \<Rightarrow> Inl e | Inr (_, w') \<Rightarrow> Inr w')"
| "execute (CmdRemoveEntity entity) w = immediately_removeEntity w entity"
| "execute (CmdAddComponent entity name data) w = immediately_addComponent w entity name data"
| "execute (CmdRemoveComponent entity names) w = immediately_removeComponent w entity names"

fun execute_all :: "command list \<Rightarrow> world \<Rightarrow> error + world" where
  "execute_all [] w = Inr w"
| "execute_all (c # cs) w =
     (case execute c w of Inl e \<Rightarrow> Inl e | Inr w' \<Rightarrow> execute_all cs w')"

definition queue_flush :: "world \<Rightarrow> error + world" where
  "queue_flush w =
     (case execute_all (queue w) w of Inl e \<Rightarrow> Inl e | Inr w' \<Rightarrow> Inr (w'\<lparr> queue := [] \<rparr>))"

text \<open>The deferred functions, \<^verbatim>\<open>flush\<close> and \<^verbatim>\<open>clear\<close>.\<close>

definition addEntity :: "world \<Rightarrow> Entity \<Rightarrow> Entity \<times> world" where
  "addEntity w entity = (entity, queue_add (CmdAddEntity entity) w)"

definition removeEntity :: "world \<Rightarrow> Entity \<Rightarrow> world" where
  "removeEntity w entity = queue_add (CmdRemoveEntity entity) w"

definition addComponent :: "world \<Rightarrow> Entity \<Rightarrow> ComponentName \<Rightarrow> ComponentData \<Rightarrow> world" where
  "addComponent w entity name data = queue_add (CmdAddComponent entity name data) w"

definition removeComponent :: "world \<Rightarrow> Entity \<Rightarrow> ComponentName list \<Rightarrow> world" where
  "removeComponent w entity names = queue_add (CmdRemoveComponent entity names) w"

definition flush :: "world \<Rightarrow> error + world" where
  "flush w = queue_flush w"

definition clear :: "world \<Rightarrow> world" where
  "clear w = queue_clear (w\<lparr> entities := [], archetypes := [], listeners := Map.empty \<rparr>)"

section \<open>Sequences of calls\<close>

text \<open>
  A program using a world is a sequence of calls of the functions that \<^verbatim>\<open>createWorld\<close>
  returns. An uncaught exception ends the program. Between the calls the program may
  register a callback with the listener registry of an archetype
  (\<^verbatim>\<open>listeners.archetypeChanged.get(archetype)!.add(callback)\<close>) and may write to its
  entity objects directly.
  Modelled from the spec: \<^verbatim>\<open>add\<close> of \<^verbatim>\<open>util/ListenerRegistry\<close>, missing from the
  sources, registers a callback in the ordered set of callbacks of the registry.
\<close>

datatype call =
    CreateArchetype "ComponentName list"
  | Get Archetype
  | GetOne Archetype
  | GetWith "ComponentName list"
  | Immediately command
  | Deferred command
  | Flush
  | Clear
  | Subscribe Archetype callback
  | Mutate Entity obj

fun deferred :: "command \<Rightarrow> world \<Rightarrow> world" where
  "deferred (CmdAddEntity entity) w = snd (addEntity w entity)"
| "deferred (CmdRemoveEntity entity) w = removeEntity w entity"
| "deferred (CmdAddComponent entity name data) w = addComponent w entity name data"
| "deferred (CmdRemoveComponent entity names) w = removeComponent w entity names"

fun perform :: "call \<Rightarrow> world \<Rightarrow> error + world" where
  "perform (CreateArchetype components) w = Inr (snd (createArchetype w components))"
| "perform (Get archetype) w = Inr (snd (get w archetype))"
| "perform (GetOne archetype) w =
     (case getOne w archetype of Inl e \<Rightarrow> Inl e | Inr (_, w') \<Rightarrow> Inr w')"
| "perform (GetWith components) w = Inr (snd (getWith w components))"
| "perform (Immediately c) w = execute c w"
| "perform (Deferred c) w = Inr (deferred c w)"
| "perform Flush w = flush w"
| "perform Clear w = Inr (clear w)"
| "perform (Subscribe archetype callback) w =
     (case listeners w archetype of
        None \<Rightarrow> Inl TypeError
      | Some registry \<Rightarrow>
          Inr (w\<lparr> listeners := (listeners w)(archetype \<mapsto>
                 (if callback \<in> set registry then registry else registry @ [callback])) \<rparr>))"
| "perform (Mutate entity properties) w = Inr (w\<lparr> objects := (objects w)(entity := properties) \<rparr>)"

fun perform_all :: "call list \<Rightarrow> world \<Rightarrow> error + world" where
  "perform_all [] w = Inr w"
| "perform_all (c # cs) w =
     (case perform c w of Inl e \<Rightarrow> Inl e | Inr w' \<Rightarrow> perform_all cs w')"

text \<open>
  The property of the indices that the spec calls exact membership: every index of the
  map holds, without repetition, the entities of the master list that satisfy its
  archetype.
\<close>

definition exact_membership :: "world \<Rightarrow> bool" where
  "exact_membership w =
     list_all (\<lambda>(archetype, index).
         distinct index \<and>
         set index = set (filter (\<lambda>entity. entityIsArchetype (objects w entity) (names_of w archetype))
                            (entities w)))
       (archetypes w)"

text \<open>Entity objects for the examples: object 1 is \<^verbatim>\<open>{a: 1, b: 2}\<close>, object 2 is \<^verbatim>\<open>{a: 3}\<close>,
  every other object is \<^verbatim>\<open>{}\<close>.\<close>

definition example_objects :: "Entity \<Rightarrow> obj" where
  "example_objects = (\<lambda>_. [])(1 := [(''a'', JNum 1), (''b'', JNum 2)], 2 := [(''a'', JNum 3)])"

definition example_world :: world where
  "example_world = snd (createArchetype (createWorld example_objects) [''a'', ''b''])"

text \<open>The same world with callback 5 registered for its archetype.\<close>

definition observed_world :: world where
  "observed_world = example_world\<lparr> listeners := (listeners example_world)(0 \<mapsto> [5]) \<rparr>"

text \<open>
  That world after \<^verbatim>\<open>immediately.addEntity\<close> of entity 1, which its index then holds,
  and after the program has emptied the object of entity 1: the index still holds the
  entity, which a filter of the master list would no longer find.
\<close>

definition populated_world :: world where
  "populated_world =
     (case perform_all [Immediately (CmdAddEntity 1), Mutate 1 []] observed_world of
        Inl _ \<Rightarrow> observed_world
      | Inr w \<Rightarrow> w)"

text \<open>Entity objects of which object 1 is \<^verbatim>\<open>{id: 7}\<close> and every other is \<^verbatim>\<open>{}\<close>.\<close>

definition identified_objects :: "Entity \<Rightarrow> obj" where
  "identified_objects = (\<lambda>_. [])(1 := [(''id'', JNum 7)])"

text \<open>
  The worlds that calls can reach keep the two maps in step: the keys of the map of
  indices are distinct and each has a listener registry.
\<close>

definition well_formed :: "world \<Rightarrow> bool" where
  "well_formed w =
     (distinct (map fst (archetypes w)) \<and>
      list_all (\<lambda>archetype. listeners w archetype \<noteq> None) (map fst (archetypes w)))"

text \<open>
  The archetypes whose registries were invoked between two worlds, and the property that
  a step from \<open>w\<close> to \<open>w'\<close> keeps the registered archetypes, only adds notifications,
  has invoked no registry twice, and has invoked (so exactly once) the registry of every
  archetype whose index it changed.
\<close>

definition new_events :: "world \<Rightarrow> world \<Rightarrow> Archetype list" where
  "new_events w w' = map fst (drop (length (notified w)) (notified w'))"

definition fires_once_per_change :: "world \<Rightarrow> world \<Rightarrow> bool" where
  "fires_once_per_change w w' =
     (map fst (archetypes w') = map fst (archetypes w) \<and>
      take (length (notified w)) (notified w') = notified w \<and>
      distinct (new_events w w') \<and>
      list_all (\<lambda>archetype. index_of w' archetype \<noteq> index_of w archetype \<longrightarrow>
                  count_list (new_events w w') archetype = 1)
        (map fst (archetypes w)))"

text \<open>The same for every command of a list executed in order, up to the first that throws.\<close>

fun notifies_each_change :: "command list \<Rightarrow> world \<Rightarrow> bool" where
  "notifies_each_change [] w = True"
| "notifies_each_change (c # cs) w =
     (case execute c w of
        Inl _ \<Rightarrow> True
      | Inr w' \<Rightarrow> fires_once_per_change w w' \<and> notifies_each_change cs w')"

text \<open>
  What a pass of one of the three loops over the archetypes \<open>ks\<close> does to a world: it
  changes indices and notifications only, keeps the keys of the map, and every archetype
  whose index changed is among the (distinct) archetypes notified, all of them in \<open>ks\<close>.
\<close>

definition loop_step :: "Archetype list \<Rightarrow> world \<Rightarrow> world \<Rightarrow> bool" where
  "loop_step ks w w' =
     (w' = w\<lparr> archetypes := archetypes w', notified := notified w' \<rparr> \<and>
      map fst (archetypes w') = map fst (archetypes w) \<and>
      take (length (notified w)) (notified w') = notified w \<and>
      distinct (new_events w w') \<and> set (new_events w w') \<subseteq> set ks \<and>
      (\<forall>b. map_of (archetypes w') b \<noteq> map_of (archetypes w) b \<longrightarrow> b \<in> set (new_events w w')))"

text \<open>
  What the spec says a command does, written without the loops of the source, to compare
  with what \<open>execute\<close> does. The entity of a command; the properties of its entity object
  after the command (\<^verbatim>\<open>addEntity\<close> writes the next identifier to \<^verbatim>\<open>id\<close>,
  \<^verbatim>\<open>removeEntity\<close> deletes \<^verbatim>\<open>id\<close>, \<^verbatim>\<open>addComponent\<close> writes the value to the name,
  \<^verbatim>\<open>removeComponent\<close> deletes the names); and the master list after the command.
\<close>

fun entity_of :: "command \<Rightarrow> Entity" where
  "entity_of (CmdAddEntity entity) = entity"
| "entity_of (CmdRemoveEntity entity) = entity"
| "entity_of (CmdAddComponent entity name data) = entity"
| "entity_of (CmdRemoveComponent entity names) = entity"

fun properties_after :: "command \<Rightarrow> world \<Rightarrow> (ComponentName \<rightharpoonup> ComponentData)" where
  "properties_after (CmdAddEntity entity) w = (map_of (objects w entity))(''id'' \<mapsto> JNum (nextId w))"
| "properties_after (CmdRemoveEntity entity) w = (map_of (objects w entity))(''id'' := None)"
| "properties_after (CmdAddComponent entity name data) w = (map_of (objects w entity))(name \<mapsto> data)"
| "properties_after (CmdRemoveComponent entity names) w =
     (\<lambda>name. if name \<in> set names then None else map_of (objects w entity) name)"

fun entities_after :: "command \<Rightarrow> world \<Rightarrow> Entity list" where
  "entities_after (CmdAddEntity entity) w = entities w @ [entity]"
| "entities_after (CmdRemoveEntity entity) w = remove1 entity (entities w)"
| "entities_after (CmdAddComponent entity name data) w = entities w"
| "entities_after (CmdRemoveComponent entity names) w = entities w"

text \<open>
  A consistent store: the two maps are in step, every index has exact membership, the
  master list holds no entity twice, and no registered archetype is the empty list of
  names.
\<close>

definition consistent :: "world \<Rightarrow> bool" where
  "consistent w =
     (well_formed w \<and> exact_membership w \<and> distinct (entities w) \<and>
      list_all (\<lambda>archetype. names_of w archetype \<noteq> []) (map fst (archetypes w)))"

text \<open>
  The commands that the functions of the source are written for. \<^verbatim>\<open>addEntity\<close>: the
  entity carries no identifier and is not in the master list. \<^verbatim>\<open>removeEntity\<close>: the
  entity is in the master list. \<^verbatim>\<open>addComponent\<close>: the entity is in the master list and
  the value is not \<^verbatim>\<open>undefined\<close>. \<^verbatim>\<open>removeComponent\<close>: every index whose archetype
  mentions one of the removed names holds the entity (the assumption in the comment of
  \<^verbatim>\<open>indexEntityWithRemovedComponents\<close>). A list of commands is clean when each command
  is clean in the world left by the commands before it.
\<close>

fun clean :: "command \<Rightarrow> world \<Rightarrow> bool" where
  "clean (CmdAddEntity entity) w =
     (\<not> has_property ''id'' (objects w entity) \<and> entity \<notin> set (entities w))"
| "clean (CmdRemoveEntity entity) w = (entity \<in> set (entities w))"
| "clean (CmdAddComponent entity name data) w = (entity \<in> set (entities w) \<and> data \<noteq> JUndefined)"
| "clean (CmdRemoveComponent entity names) w =
     list_all (\<lambda>(archetype, index).
                 list_ex (\<lambda>name. name \<in> set names) (names_of w archetype) \<longrightarrow> entity \<in> set index)
       (archetypes w)"

fun clean_all :: "command list \<Rightarrow> world \<Rightarrow> bool" where
  "clean_all [] w = True"
| "clean_all (c # cs) w =
     (clean c w \<and> (case execute c w of Inl _ \<Rightarrow> False | Inr w' \<Rightarrow> clean_all cs w'))"

text \<open>
  A step from \<open>w\<close> to \<open>w'\<close> has invoked the listeners of an archetype exactly when it
  changed the index of the archetype, and then once: the step keeps the registered
  archetypes and only adds notifications; no archetype is notified twice; only registered
  archetypes are notified, each with the callbacks registered for it; and a registered
  archetype is among the notified if and only if its index is not what it was.
\<close>

definition fired_iff_changed :: "world \<Rightarrow> world \<Rightarrow> bool" where
  "fired_iff_changed w w' =
     (map fst (archetypes w') = map fst (archetypes w) \<and>
      take (length (notified w)) (notified w') = notified w \<and>
      distinct (new_events w w') \<and>
      list_all (\<lambda>archetype. archetype \<in> set (map fst (archetypes w))) (new_events w w') \<and>
      list_all (\<lambda>(archetype, callbacks). listeners w archetype = Some callbacks)
        (drop (length (notified w)) (notified w')) \<and>
      list_all (\<lambda>archetype. (archetype \<in> set (new_events w w'))
                  = (index_of w' archetype \<noteq> index_of w archetype))
        (map fst (archetypes w)))"

text \<open>
  The world \<open>w'\<close> is the world \<open>w\<close> updated by the command \<open>c\<close>: the entity object of the
  command has the properties the command gives it and every other entity object is as
  before; the master list is the one the command gives; the identifier counter has
  advanced for \<^verbatim>\<open>addEntity\<close> only; the queue and the listener registries are as
  before; the store is consistent again, so every index holds exactly the entities that
  now satisfy its archetype; and listeners were invoked exactly for the indices that
  changed. A list of commands updates a world when each command, executed in order,
  returns and has updated the world it was executed in.
\<close>

definition updated :: "command \<Rightarrow> world \<Rightarrow> world \<Rightarrow> bool" where
  "updated c w w' =
     (map_of (objects w' (entity_of c)) = properties_after c w \<and>
      (\<forall>entity. entity \<noteq> entity_of c \<longrightarrow> objects w' entity = objects w entity) \<and>
      entities w' = entities_after c w \<and>
      nextId w' = (if is_CmdAddEntity c then nextId w + 1 else nextId w) \<and>
      queue w' = queue w \<and> listeners w' = listeners w \<and>
      consistent w' \<and>
      fired_iff_changed w w')"

fun updates_all :: "command list \<Rightarrow> world \<Rightarrow> bool" where
  "updates_all [] w = True"
| "updates_all (c # cs) w =
     (case execute c w of Inl _ \<Rightarrow> False | Inr w' \<Rightarrow> updated c w w' \<and> updates_all cs w')"

text \<open>
  Commands for the examples, for the entity objects of \<open>example_objects\<close>: add entity 1
  and entity 2, give entity 2 the component \<^verbatim>\<open>b\<close>, take \<^verbatim>\<open>a\<close> from entity 1, remove
  entity 2.
\<close>

definition example_commands :: "command list" where
  "example_commands =
     [CmdAddEntity 1, CmdAddEntity 2, CmdAddComponent 2 ''b'' (JNum 4),
      CmdRemoveComponent 1 [''a''], CmdRemoveEntity 2]"

section \<open>The predicates of \<^verbatim>\<open>packages/miniplex-core/src/predicates.ts\<close>\<close>

text \<open>
  \<^verbatim>\<open>JSON.stringify\<close> of an array of strings: the quoted strings, separated by commas,
  in brackets. Quoting escapes the double quote, the backslash and the control
  characters.
\<close>

definition hex_digit :: "nat \<Rightarrow> char" where
  "hex_digit n = (if n < 10 then char_of (48 + n) else char_of (87 + n))"

definition quote_char :: "char \<Rightarrow> string" where
  "quote_char c =
     (if c = CHR 0x22 then [CHR 0x5C, CHR 0x22]
      else if c = CHR 0x5C then [CHR 0x5C, CHR 0x5C]
      else if c = CHR 0x08 then [CHR 0x5C, CHR ''b'']
      else if c = CHR 0x09 then [CHR 0x5C, CHR ''t'']
      else if c = CHR 0x0A then [CHR 0x5C, CHR ''n'']
      else if c = CHR 0x0C then [CHR 0x5C, CHR ''f'']
      else if c = CHR 0x0D then [CHR 0x5C, CHR ''r'']
      else if of_char c < (32 :: nat)
        then [CHR 0x5C, CHR ''u'', CHR ''0'', CHR ''0'',
              hex_digit (of_char c div 16), hex_digit (of_char c mod 16)]
      else [c])"

definition QuoteJSONString :: "string \<Rightarrow> string" where
  "QuoteJSONString s = CHR 0x22 # concat (map quote_char s) @ [CHR 0x22]"

fun join :: "string list \<Rightarrow> string" where
  "join [] = []"
| "join [x] = x"
| "join (x # y # ys) = x @ CHR '','' # join (y # ys)"

definition JSON_stringify :: "string list \<Rightarrow> string" where
  "JSON_stringify xs = CHR ''['' # join (map QuoteJSONString xs) @ [CHR '']'']"

text \<open>\<^verbatim>\<open>[...new Set(xs)]\<close>: the elements of \<open>xs\<close> in the order of their first occurrence.\<close>

definition Set_values :: "'a list \<Rightarrow> 'a list" where
  "Set_values xs = fold (\<lambda>x s. if x \<in> set s then s else s @ [x]) xs []"

text \<open>\<^verbatim>\<open>key\<close>. A string is falsy when it is empty, so both tests of the filter are the same.\<close>

definition key :: "ComponentName list \<Rightarrow> string" where
  "key components =
     JSON_stringify (Set_values (filter (\<lambda>p. p \<noteq> [] \<and> p \<noteq> []) (sort components)))"

text \<open>
  A function object is an address; the module's functions are the function objects
  that exist, with what each returns on an entity (a predicate is a pure function from
  entity to boolean). The four stores are the maps of \<^verbatim>\<open>stores\<close>.
\<close>

type_synonym Function = nat

record module =
  function_objects :: "Function \<rightharpoonup> (obj \<Rightarrow> bool)"
  nextFunction :: Function
  stores_not :: "Function \<rightharpoonup> Function"
  stores_all :: "string \<rightharpoonup> Function"
  stores_any :: "string \<rightharpoonup> Function"
  stores_none :: "string \<rightharpoonup> Function"

text \<open>The module when loaded, in a program whose own predicate functions are \<open>fs\<close>.\<close>

definition stores :: "(obj \<Rightarrow> bool) list \<Rightarrow> module" where
  "stores fs =
     \<lparr> function_objects = (\<lambda>f. if f < length fs then Some (fs ! f) else None),
       nextFunction = length fs,
       stores_not = Map.empty, stores_all = Map.empty, stores_any = Map.empty,
       stores_none = Map.empty \<rparr>"

text \<open>\<^verbatim>\<open>memoize(store, from, to)\<close>\<close>

definition memoize :: "('a \<rightharpoonup> Function) \<Rightarrow> 'a \<Rightarrow> Function \<Rightarrow> Function \<times> ('a \<rightharpoonup> Function)" where
  "memoize store from_key to =
     (case store from_key of Some f \<Rightarrow> (f, store) | None \<Rightarrow> (to, store(from_key \<mapsto> to)))"

text \<open>Evaluating an arrow function creates a function object.\<close>

definition new_function :: "(obj \<Rightarrow> bool) \<Rightarrow> module \<Rightarrow> Function \<times> module" where
  "new_function body m =
     (nextFunction m,
      m\<lparr> function_objects := (function_objects m)(nextFunction m \<mapsto> body), nextFunction := nextFunction m + 1 \<rparr>)"

text \<open>
  \<^verbatim>\<open>not\<close>, \<^verbatim>\<open>all\<close>, \<^verbatim>\<open>any\<close>, \<^verbatim>\<open>none\<close>. The argument of \<^verbatim>\<open>not\<close> is a function by its
  type; a \<^verbatim>\<open>WeakMap\<close> rejects a key that is not an object with a \<^verbatim>\<open>TypeError\<close>. The arrow
  functions of the other three close over the array of the rest parameter, which
  \<^verbatim>\<open>key\<close> has sorted in place.
\<close>

definition not_p :: "module \<Rightarrow> Function \<Rightarrow> error + (Function \<times> module)" where
  "not_p m predicate =
     (case function_objects m predicate of
        None \<Rightarrow> Inl TypeError
      | Some p \<Rightarrow>
          let (to, m1) = new_function (\<lambda>entity. \<not> p entity) m;
              (f, store) = memoize (stores_not m1) predicate to
          in Inr (f, m1\<lparr> stores_not := store \<rparr>))"

definition all :: "module \<Rightarrow> ComponentName list \<Rightarrow> Function \<times> module" where
  "all m components =
     (let k = key components;
          (to, m1) = new_function
             (\<lambda>entity. list_all (\<lambda>c. property entity c \<noteq> JUndefined) (sort components)) m;
          (f, store) = memoize (stores_all m1) k to
      in (f, m1\<lparr> stores_all := store \<rparr>))"

definition any :: "module \<Rightarrow> ComponentName list \<Rightarrow> Function \<times> module" where
  "any m components =
     (let k = key components;
          (to, m1) = new_function
             (\<lambda>entity. list_ex (\<lambda>c. property entity c \<noteq> JUndefined) (sort components)) m;
          (f, store) = memoize (stores_any m1) k to
      in (f, m1\<lparr> stores_any := store \<rparr>))"

definition none :: "module \<Rightarrow> ComponentName list \<Rightarrow> Function \<times> module" where
  "none m components =
     (let k = key components;
          (to, m1) = new_function
             (\<lambda>entity. list_all (\<lambda>c. property entity c = JUndefined) (sort components)) m;
          (f, store) = memoize (stores_none m1) k to
      in (f, m1\<lparr> stores_none := store \<rparr>))"

text \<open>Calling a function object on an entity.\<close>

definition call_function :: "module \<Rightarrow> Function \<Rightarrow> obj \<Rightarrow> error + bool" where
  "call_function m f entity =
     (case function_objects m f of None \<Rightarrow> Inl TypeError | Some body \<Rightarrow> Inr (body entity))"

text \<open>A program using the module is a sequence of calls of its four constructors.\<close>

datatype construction =
    CallNot Function
  | CallAll "ComponentName list"
  | CallAny "ComponentName list"
  | CallNone "ComponentName list"

fun construct :: "construction \<Rightarrow> module \<Rightarrow> error + (Function \<times> module)" where
  "construct (CallNot predicate) m = not_p m predicate"
| "construct (CallAll components) m = Inr (all m components)"
| "construct (CallAny components) m = Inr (any m components)"
| "construct (CallNone components) m = Inr (none m components)"

fun construct_all :: "construction list \<Rightarrow> module \<Rightarrow> error + module" where
  "construct_all [] m = Inr m"
| "construct_all (c # cs) m =
     (case construct c m of Inl e \<Rightarrow> Inl e | Inr (_, m') \<Rightarrow> construct_all cs m')"

text \<open>
  The spec's canonical form of a list of names: sorted, deduplicated, with the empty
  names filtered out. Two calls are equivalent when they are calls of the same
  constructor with lists of the same canonical form, or calls of \<^verbatim>\<open>not\<close> with the
  same function.
\<close>

definition canonical :: "ComponentName list \<Rightarrow> ComponentName list" where
  "canonical names = remdups (filter (\<lambda>name. name \<noteq> []) (sort names))"

fun equivalent :: "construction \<Rightarrow> construction \<Rightarrow> bool" where
  "equivalent (CallNot p) (CallNot q) = (p = q)"
| "equivalent (CallAll xs) (CallAll ys) = (canonical xs = canonical ys)"
| "equivalent (CallAny xs) (CallAny ys) = (canonical xs = canonical ys)"
| "equivalent (CallNone xs) (CallNone ys) = (canonical xs = canonical ys)"
| "equivalent _ _ = False"

fun no_empty_name :: "construction \<Rightarrow> bool" where
  "no_empty_name (CallNot p) = True"
| "no_empty_name (CallAll xs) = ([] \<notin> set xs)"
| "no_empty_name (CallAny xs) = ([] \<notin> set xs)"
| "no_empty_name (CallNone xs) = ([] \<notin> set xs)"

text \<open>The entry of the stores that a call of a constructor consults.\<close>

fun consulted :: "construction \<Rightarrow> module \<Rightarrow> Function option" where
  "consulted (CallNot p) m = stores_not m p"
| "consulted (CallAll xs) m = stores_all m (key xs)"
| "consulted (CallAny xs) m = stores_any m (key xs)"
| "consulted (CallNone xs) m = stores_none m (key xs)"

text \<open>
  What the calls of the constructors maintain. Function objects have addresses below the
  next one, and a function stored for \<open>p\<close> in the store of \<^verbatim>\<open>not\<close> negates the function
  \<open>p\<close>. As long as no list of names held an empty name, a function stored under a key in
  one of the other stores tests a list of names that has this key.
\<close>

definition sound_stores :: "module \<Rightarrow> bool" where
  "sound_stores m =
     ((\<forall>a. function_objects m a \<noteq> None \<longrightarrow> a < nextFunction m) \<and>
      (\<forall>p f. stores_not m p = Some f \<longrightarrow>
         (\<exists>b. function_objects m p = Some b \<and>
              function_objects m f = Some (\<lambda>entity. \<not> b entity))))"

definition sound_names :: "module \<Rightarrow> bool" where
  "sound_names m =
     ((\<forall>k f. stores_all m k = Some f \<longrightarrow>
         (\<exists>xs. [] \<notin> set xs \<and> key xs = k \<and>
               function_objects m f =
                 Some (\<lambda>entity. list_all (\<lambda>c. property entity c \<noteq> JUndefined) (sort xs)))) \<and>
      (\<forall>k f. stores_any m k = Some f \<longrightarrow>
         (\<exists>xs. [] \<notin> set xs \<and> key xs = k \<and>
               function_objects m f =
                 Some (\<lambda>entity. list_ex (\<lambda>c. property entity c \<noteq> JUndefined) (sort xs)))) \<and>
      (\<forall>k f. stores_none m k = Some f \<longrightarrow>
         (\<exists>xs. [] \<notin> set xs \<and> key xs = k \<and>
               function_objects m f =
                 Some (\<lambda>entity. list_all (\<lambda>c. property entity c = JUndefined) (sort xs)))))"

text \<open>The module after \<^verbatim>\<open>all("a")\<close>, in a program with no predicates of its own.\<close>

definition example_module :: module where
  "example_module = snd (all (stores []) [''a''])"

section \<open>Evaluating the definitions\<close>

lemmas ecs_defs = createWorld_def createArchetype_def fetch_def names_of_def entityIsArchetype_def
  property_def has_property_def assign_def delete_property_def Object_keys_def Array_splice_def
  invoke_def index_of_def set_index_def index_new_def indexEntityWithNewComponents_def
  index_removed_def indexEntityWithRemovedComponents_def remove_from_index_def
  removeEntityFromAllIndices_def update_object_def immediately_addEntity_def
  immediately_removeEntity_def immediately_addComponent_def immediately_removeComponent_def
  queue_add_def queue_clear_def queue_flush_def addEntity_def removeEntity_def addComponent_def
  removeComponent_def flush_def clear_def get_def getOne_def getWith_def example_objects_def
  exact_membership_def example_world_def logical_key_def observed_world_def

section \<open>The loops over the archetypes\<close>

lemma loop_step_refl: "loop_step ks w w"
  by (simp add: loop_step_def new_events_def)

lemma loop_step_trans:
  assumes "loop_step [a] w w1" "loop_step ks w1 w2" "a \<notin> set ks"
  shows "loop_step (a # ks) w w2"
proof -
  from assms(1) have f1: "w1 = w\<lparr> archetypes := archetypes w1, notified := notified w1 \<rparr>"
    and k1: "map fst (archetypes w1) = map fst (archetypes w)"
    and n1: "take (length (notified w)) (notified w1) = notified w"
    and d1: "distinct (new_events w w1)" and s1: "set (new_events w w1) \<subseteq> {a}"
    and c1: "\<forall>b. map_of (archetypes w1) b \<noteq> map_of (archetypes w) b \<longrightarrow> b \<in> set (new_events w w1)"
    by (simp_all add: loop_step_def)
  from assms(2) have f2: "w2 = w1\<lparr> archetypes := archetypes w2, notified := notified w2 \<rparr>"
    and k2: "map fst (archetypes w2) = map fst (archetypes w1)"
    and n2: "take (length (notified w1)) (notified w2) = notified w1"
    and d2: "distinct (new_events w1 w2)" and s2: "set (new_events w1 w2) \<subseteq> set ks"
    and c2: "\<forall>b. map_of (archetypes w2) b \<noteq> map_of (archetypes w1) b \<longrightarrow> b \<in> set (new_events w1 w2)"
    by (simp_all add: loop_step_def)
  obtain e1 where e1: "notified w1 = notified w @ e1"
    using n1 by (metis append_take_drop_id)
  obtain e2 where e2: "notified w2 = notified w1 @ e2"
    using n2 by (metis append_take_drop_id)
  have ev1: "new_events w w1 = map fst e1" by (simp add: new_events_def e1)
  have ev2: "new_events w1 w2 = map fst e2" by (simp add: new_events_def e2)
  have ev: "new_events w w2 = map fst e1 @ map fst e2" by (simp add: new_events_def e1 e2)
  have frame: "w2 = w\<lparr> archetypes := archetypes w2, notified := notified w2 \<rparr>"
    by (subst f2, subst f1) simp
  have "distinct (new_events w w2)"
    using d1 d2 s1 s2 assms(3) unfolding ev ev1 ev2 by auto
  moreover have "set (new_events w w2) \<subseteq> set (a # ks)"
    using s1 s2 unfolding ev ev1 ev2 by auto
  moreover have "\<forall>b. map_of (archetypes w2) b \<noteq> map_of (archetypes w) b \<longrightarrow> b \<in> set (new_events w w2)"
    using c1 c2 unfolding ev ev1 ev2 by (metis Un_iff set_append)
  moreover have "take (length (notified w)) (notified w2) = notified w"
    by (simp add: e1 e2)
  ultimately show ?thesis
    using frame k1 k2 unfolding loop_step_def by simp
qed

lemma for_each_loop_step:
  assumes body: "\<And>a w. a \<in> set ks \<Longrightarrow> a \<in> set (map fst (archetypes w)) \<Longrightarrow> listeners w a \<noteq> None
                  \<Longrightarrow> \<exists>w'. body a w = Inr w' \<and> loop_step [a] w w'"
  shows "distinct ks \<Longrightarrow> set ks \<subseteq> set (map fst (archetypes w)) \<Longrightarrow>
         \<forall>a \<in> set ks. listeners w a \<noteq> None \<Longrightarrow>
         \<exists>w'. for_each body ks w = Inr w' \<and> loop_step ks w w'"
  using body
proof (induction ks arbitrary: w)
  case Nil
  then show ?case by (simp add: loop_step_refl)
next
  case (Cons a ks)
  from Cons.prems obtain w1 where b: "body a w = Inr w1" and s: "loop_step [a] w w1"
    by (metis list.set_intros(1) subsetD)
  from s have keys: "map fst (archetypes w1) = map fst (archetypes w)"
    and fr: "w1 = w\<lparr> archetypes := archetypes w1, notified := notified w1 \<rparr>"
    by (simp_all add: loop_step_def)
  have ls: "listeners w1 = listeners w" by (subst fr) simp
  have "\<exists>w'. for_each body ks w1 = Inr w' \<and> loop_step ks w1 w'"
  proof (rule Cons.IH)
    show "distinct ks" using Cons.prems(1) by simp
    show "set ks \<subseteq> set (map fst (archetypes w1))" using Cons.prems(2) keys by simp
    show "\<forall>a\<in>set ks. listeners w1 a \<noteq> None" using Cons.prems(3) ls by simp
    show "\<And>a w. a \<in> set ks \<Longrightarrow> a \<in> set (map fst (archetypes w)) \<Longrightarrow> listeners w a \<noteq> None
                  \<Longrightarrow> \<exists>w'. body a w = Inr w' \<and> loop_step [a] w w'"
      using Cons.prems(4) by simp
  qed
  then obtain w2 where r: "for_each body ks w1 = Inr w2" and s2: "loop_step ks w1 w2" by blast
  have "a \<notin> set ks" using Cons.prems(1) by simp
  from loop_step_trans [OF s s2 this] b r show ?case by simp
qed


lemma invoke_set_index_step:
  assumes "a \<in> set (map fst (archetypes w))" "listeners w a \<noteq> None"
  shows "\<exists>w'. invoke a (set_index a idx w) = Inr w' \<and> loop_step [a] w w'"
proof -
  from assms(2) obtain r where r: "listeners w a = Some r" by blast
  let ?w' = "w\<lparr> archetypes := AList.update a idx (archetypes w), notified := notified w @ [(a, r)] \<rparr>"
  have "invoke a (set_index a idx w) = Inr ?w'"
    by (simp add: invoke_def set_index_def r)
  moreover have "loop_step [a] w ?w'"
    using assms(1) by (simp add: loop_step_def new_events_def update_keys update_conv')
  ultimately show ?thesis by blast
qed

lemma index_new_step:
  assumes "a \<in> set (map fst (archetypes w))" "listeners w a \<noteq> None"
  shows "\<exists>w'. index_new e added a w = Inr w' \<and> loop_step [a] w w'"
  using invoke_set_index_step [OF assms] loop_step_refl [of "[a]" w]
  by (simp add: index_new_def)

lemma index_removed_step:
  assumes "a \<in> set (map fst (archetypes w))" "listeners w a \<noteq> None"
  shows "\<exists>w'. index_removed e removed a w = Inr w' \<and> loop_step [a] w w'"
  using invoke_set_index_step [OF assms] loop_step_refl [of "[a]" w]
  by (simp add: index_removed_def)

lemma remove_from_index_step:
  assumes "a \<in> set (map fst (archetypes w))" "listeners w a \<noteq> None"
  shows "\<exists>w'. remove_from_index e a w = Inr w' \<and> loop_step [a] w w'"
  using invoke_set_index_step [OF assms] loop_step_refl [of "[a]" w]
  by (simp add: remove_from_index_def Let_def)

lemma well_formed_loop:
  assumes "well_formed w"
    and "\<And>a w. a \<in> set (map fst (archetypes w)) \<Longrightarrow> listeners w a \<noteq> None
                  \<Longrightarrow> \<exists>w'. body a w = Inr w' \<and> loop_step [a] w w'"
  shows "\<exists>w'. for_each body (map fst (archetypes w)) w = Inr w' \<and>
              loop_step (map fst (archetypes w)) w w'"
proof (rule for_each_loop_step)
  show "distinct (map fst (archetypes w))" using assms(1) by (simp add: well_formed_def)
  show "set (map fst (archetypes w)) \<subseteq> set (map fst (archetypes w))" by simp
  show "\<forall>a\<in>set (map fst (archetypes w)). listeners w a \<noteq> None"
    using assms(1) by (simp add: well_formed_def list_all_iff)
  show "\<And>a w'. a \<in> set (map fst (archetypes w)) \<Longrightarrow> a \<in> set (map fst (archetypes w')) \<Longrightarrow> listeners w' a \<noteq> None
                  \<Longrightarrow> \<exists>w''. body a w' = Inr w'' \<and> loop_step [a] w' w''"
    using assms(2) by blast
qed

lemma indexEntityWithNewComponents_total:
  "well_formed w \<Longrightarrow>
     \<exists>w'. indexEntityWithNewComponents e added w = Inr w' \<and> loop_step (map fst (archetypes w)) w w'"
  unfolding indexEntityWithNewComponents_def
  by (rule well_formed_loop, assumption, rule index_new_step, assumption+)

lemma indexEntityWithRemovedComponents_total:
  "well_formed w \<Longrightarrow>
     \<exists>w'. indexEntityWithRemovedComponents e removed w = Inr w' \<and> loop_step (map fst (archetypes w)) w w'"
  unfolding indexEntityWithRemovedComponents_def
  by (rule well_formed_loop, assumption, rule index_removed_step, assumption+)

lemma removeEntityFromAllIndices_total:
  "well_formed w \<Longrightarrow>
     \<exists>w'. removeEntityFromAllIndices e w = Inr w' \<and> loop_step (map fst (archetypes w)) w w'"
  unfolding removeEntityFromAllIndices_def
  by (rule well_formed_loop, assumption, rule remove_from_index_step, assumption+)

lemma distinct_count_list: "distinct xs \<Longrightarrow> x \<in> set xs \<Longrightarrow> count_list xs x = 1"
  by (induction xs) auto

lemma loop_step_fires:
  assumes "loop_step ks w w'"
  shows "fires_once_per_change w w'"
proof -
  have "index_of w' a \<noteq> index_of w a \<Longrightarrow> count_list (new_events w w') a = 1" for a
  proof -
    assume "index_of w' a \<noteq> index_of w a"
    then have "map_of (archetypes w') a \<noteq> map_of (archetypes w) a"
      by (auto simp: index_of_def)
    with assms have "a \<in> set (new_events w w')" by (simp add: loop_step_def)
    with assms show ?thesis by (simp add: loop_step_def distinct_count_list)
  qed
  with assms show ?thesis
    by (simp add: fires_once_per_change_def loop_step_def list_all_iff)
qed

lemma loop_step_frame:
  assumes "loop_step ks w w'"
  shows "objects w' = objects w" "arrays w' = arrays w" "nextRef w' = nextRef w"
    "entities w' = entities w" "nextId w' = nextId w" "listeners w' = listeners w"
    "queue w' = queue w" "memoizedArchetypes w' = memoizedArchetypes w"
proof -
  from assms have fr: "w' = w\<lparr> archetypes := archetypes w', notified := notified w' \<rparr>"
    by (simp add: loop_step_def)
  show "objects w' = objects w" using arg_cong [OF fr, of objects] by simp
  show "arrays w' = arrays w" using arg_cong [OF fr, of arrays] by simp
  show "nextRef w' = nextRef w" using arg_cong [OF fr, of nextRef] by simp
  show "entities w' = entities w" using arg_cong [OF fr, of entities] by simp
  show "nextId w' = nextId w" using arg_cong [OF fr, of nextId] by simp
  show "listeners w' = listeners w" using arg_cong [OF fr, of listeners] by simp
  show "queue w' = queue w" using arg_cong [OF fr, of queue] by simp
  show "memoizedArchetypes w' = memoizedArchetypes w"
    using arg_cong [OF fr, of memoizedArchetypes] by simp
qed

lemma loop_step_well_formed:
  assumes "loop_step ks w w'" "well_formed w"
  shows "well_formed w'"
proof -
  from assms(1) have "map fst (archetypes w') = map fst (archetypes w)"
    by (simp add: loop_step_def)
  with loop_step_frame(6) [OF assms(1)] assms(2) show ?thesis
    by (simp add: well_formed_def)
qed


lemma fires_once_per_change_cong:
  "archetypes w = archetypes v \<Longrightarrow> notified w = notified v \<Longrightarrow>
   archetypes w' = archetypes v' \<Longrightarrow> notified w' = notified v' \<Longrightarrow>
   fires_once_per_change w w' = fires_once_per_change v v'"
  by (simp add: fires_once_per_change_def index_of_def new_events_def)

lemma immediately_addEntity_ok:
  assumes "well_formed w" "\<not> has_property ''id'' (objects w e)"
  shows "\<exists>w'. immediately_addEntity w e = Inr (e, w') \<and> fires_once_per_change w w' \<and> well_formed w'
             \<and> objects w' = (objects w)(e := assign ''id'' (JNum (nextId w)) (objects w e))
             \<and> entities w' = entities w @ [e] \<and> nextId w' = nextId w + 1"
proof -
  let ?w1 = "update_object e (assign ''id'' (JNum (nextId w))) (w\<lparr> nextId := nextId w + 1 \<rparr>)"
  let ?w2 = "?w1\<lparr> entities := entities ?w1 @ [e] \<rparr>"
  have wf2: "well_formed ?w2"
    using assms(1) by (simp add: well_formed_def update_object_def)
  from indexEntityWithNewComponents_total [OF wf2, of e "Object_keys (objects ?w2 e)"]
  obtain w3 where r: "indexEntityWithNewComponents e (Object_keys (objects ?w2 e)) ?w2 = Inr w3"
    and s: "loop_step (map fst (archetypes ?w2)) ?w2 w3" by blast
  have res: "immediately_addEntity w e = Inr (e, w3)"
    using assms(2) r by (simp add: immediately_addEntity_def Let_def)
  have "fires_once_per_change ?w2 w3" by (rule loop_step_fires [OF s])
  then have f: "fires_once_per_change w w3"
    by (simp add: fires_once_per_change_cong [of w ?w2 w3 w3] update_object_def)
  have wf3: "well_formed w3" by (rule loop_step_well_formed [OF s wf2])
  from s have fr: "w3 = ?w2\<lparr> archetypes := archetypes w3, notified := notified w3 \<rparr>"
    by (simp add: loop_step_def)
  have "objects w3 = objects ?w2" "entities w3 = entities ?w2" "nextId w3 = nextId ?w2"
    by (subst fr, simp)+
  then have "objects w3 = (objects w)(e := assign ''id'' (JNum (nextId w)) (objects w e))"
    "entities w3 = entities w @ [e]" "nextId w3 = nextId w + 1"
    by (simp_all add: update_object_def)
  with res f wf3 show ?thesis by blast
qed

lemma immediately_removeEntity_ok:
  assumes "well_formed w"
  shows "\<exists>w'. immediately_removeEntity w e = Inr w' \<and> fires_once_per_change w w' \<and> well_formed w'"
proof -
  from removeEntityFromAllIndices_total [OF assms, of e]
  obtain w1 where r: "removeEntityFromAllIndices e w = Inr w1"
    and s: "loop_step (map fst (archetypes w)) w w1" by blast
  let ?w2 = "update_object e (delete_property ''id'') w1"
  let ?w3 = "?w2\<lparr> entities := Array_splice (entities ?w2) (indexOf (entities ?w2) e) 1 \<rparr>"
  have res: "immediately_removeEntity w e = Inr ?w3"
    using r by (simp add: immediately_removeEntity_def Let_def)
  have "fires_once_per_change w w1" by (rule loop_step_fires [OF s])
  moreover have "fires_once_per_change w ?w3 = fires_once_per_change w w1"
    by (rule fires_once_per_change_cong) (simp_all add: update_object_def)
  ultimately have f: "fires_once_per_change w ?w3" by simp
  have "well_formed w1" by (rule loop_step_well_formed [OF s assms])
  then have "well_formed ?w3"
    by (simp add: well_formed_def update_object_def)
  with res f show ?thesis by blast
qed

lemma immediately_addComponent_ok:
  assumes "well_formed w"
  shows "\<exists>w'. immediately_addComponent w e name data = Inr w' \<and> fires_once_per_change w w' \<and> well_formed w'"
proof -
  let ?w1 = "update_object e (assign name data) w"
  have wf1: "well_formed ?w1" using assms by (simp add: well_formed_def update_object_def)
  from indexEntityWithNewComponents_total [OF wf1, of e "[name]"]
  obtain w2 where r: "indexEntityWithNewComponents e [name] ?w1 = Inr w2"
    and s: "loop_step (map fst (archetypes ?w1)) ?w1 w2" by blast
  have "fires_once_per_change ?w1 w2" by (rule loop_step_fires [OF s])
  then have "fires_once_per_change w w2"
    by (simp add: fires_once_per_change_cong [of w ?w1 w2 w2] update_object_def)
  moreover have "well_formed w2" by (rule loop_step_well_formed [OF s wf1])
  ultimately show ?thesis using r by (simp add: immediately_addComponent_def)
qed

lemma immediately_removeComponent_ok:
  assumes "well_formed w"
  shows "\<exists>w'. immediately_removeComponent w e names = Inr w' \<and> fires_once_per_change w w' \<and> well_formed w'"
proof -
  let ?w1 = "update_object e (\<lambda>entity. fold delete_property names entity) w"
  have wf1: "well_formed ?w1" using assms by (simp add: well_formed_def update_object_def)
  from indexEntityWithRemovedComponents_total [OF wf1, of e names]
  obtain w2 where r: "indexEntityWithRemovedComponents e names ?w1 = Inr w2"
    and s: "loop_step (map fst (archetypes ?w1)) ?w1 w2" by blast
  have "fires_once_per_change ?w1 w2" by (rule loop_step_fires [OF s])
  then have "fires_once_per_change w w2"
    by (simp add: fires_once_per_change_cong [of w ?w1 w2 w2] update_object_def)
  moreover have "well_formed w2" by (rule loop_step_well_formed [OF s wf1])
  ultimately show ?thesis using r by (simp add: immediately_removeComponent_def)
qed

lemma immediately_addEntity_duplicate:
  "has_property ''id'' (objects w e) \<Longrightarrow> immediately_addEntity w e = Inl DuplicateIdentifier"
  by (simp add: immediately_addEntity_def)

lemma execute_ok:
  assumes "well_formed w" "execute c w = Inr w'"
  shows "fires_once_per_change w w' \<and> well_formed w'"
proof (cases c)
  case (CmdAddEntity e)
  show ?thesis
  proof (cases "has_property ''id'' (objects w e)")
    case True
    with assms(2) CmdAddEntity show ?thesis by (simp add: immediately_addEntity_duplicate)
  next
    case False
    from immediately_addEntity_ok [OF assms(1) False] assms(2) CmdAddEntity
    show ?thesis by auto
  qed
next
  case (CmdRemoveEntity e)
  with immediately_removeEntity_ok [OF assms(1), of e] assms(2) show ?thesis by auto
next
  case (CmdAddComponent e name data)
  with immediately_addComponent_ok [OF assms(1), of e name data] assms(2) show ?thesis by auto
next
  case (CmdRemoveComponent e names)
  with immediately_removeComponent_ok [OF assms(1), of e names] assms(2) show ?thesis by auto
qed

lemma notifies_each_change_holds:
  "well_formed w \<Longrightarrow> notifies_each_change cs w"
  by (induction cs arbitrary: w) (auto split: sum.splits dest: execute_ok)


lemma execute_error:
  assumes "well_formed w" "execute c w = Inl e"
  shows "e = DuplicateIdentifier \<and> (\<exists>entity. c = CmdAddEntity entity)"
proof (cases c)
  case (CmdAddEntity entity)
  show ?thesis
  proof (cases "has_property ''id'' (objects w entity)")
    case True
    with assms(2) CmdAddEntity show ?thesis by (simp add: immediately_addEntity_duplicate)
  next
    case False
    from immediately_addEntity_ok [OF assms(1) False] assms(2) CmdAddEntity
    show ?thesis by auto
  qed
next
  case (CmdRemoveEntity entity)
  with immediately_removeEntity_ok [OF assms(1), of entity] assms(2) show ?thesis by auto
next
  case (CmdAddComponent entity name data)
  with immediately_addComponent_ok [OF assms(1), of entity name data] assms(2) show ?thesis by auto
next
  case (CmdRemoveComponent entity names)
  with immediately_removeComponent_ok [OF assms(1), of entity names] assms(2) show ?thesis by auto
qed

lemma execute_all_error:
  "well_formed w \<Longrightarrow> execute_all cs w = Inl e \<Longrightarrow>
     e = DuplicateIdentifier \<and> (\<exists>entity. CmdAddEntity entity \<in> set cs)"
proof (induction cs arbitrary: w)
  case Nil
  then show ?case by simp
next
  case (Cons c cs)
  show ?case
  proof (cases "execute c w")
    case (Inl e')
    with Cons.prems(2) have "e' = e" by simp
    with execute_error [OF Cons.prems(1) Inl] show ?thesis by auto
  next
    case (Inr w1)
    with Cons.prems(2) have "execute_all cs w1 = Inl e" by simp
    from Cons.IH [OF _ this] execute_ok [OF Cons.prems(1) Inr] show ?thesis by auto
  qed
qed

lemma for_each_queue:
  assumes "\<And>a w. body a (w\<lparr> queue := q \<rparr>) = map_sum id (\<lambda>w'. w'\<lparr> queue := q \<rparr>) (body a w)"
  shows "for_each body ks (w\<lparr> queue := q \<rparr>) = map_sum id (\<lambda>w'. w'\<lparr> queue := q \<rparr>) (for_each body ks w)"
proof (induction ks arbitrary: w)
  case Nil
  show ?case by simp
next
  case (Cons a ks)
  show ?case
    by (cases "body a w") (simp_all add: assms Cons.IH)
qed

lemma index_new_queue:
  "index_new e added a (w\<lparr> queue := q \<rparr>) = map_sum id (\<lambda>w'. w'\<lparr> queue := q \<rparr>) (index_new e added a w)"
  by (simp add: index_new_def invoke_def set_index_def index_of_def names_of_def split: option.splits)

lemma index_removed_queue:
  "index_removed e removed a (w\<lparr> queue := q \<rparr>) =
     map_sum id (\<lambda>w'. w'\<lparr> queue := q \<rparr>) (index_removed e removed a w)"
  by (simp add: index_removed_def invoke_def set_index_def index_of_def names_of_def split: option.splits)

lemma remove_from_index_queue:
  "remove_from_index e a (w\<lparr> queue := q \<rparr>) =
     map_sum id (\<lambda>w'. w'\<lparr> queue := q \<rparr>) (remove_from_index e a w)"
  by (simp add: remove_from_index_def invoke_def set_index_def index_of_def Let_def split: option.splits)

lemma indexEntityWithNewComponents_queue:
  "indexEntityWithNewComponents e added (w\<lparr> queue := q \<rparr>) =
     map_sum id (\<lambda>w'. w'\<lparr> queue := q \<rparr>) (indexEntityWithNewComponents e added w)"
  unfolding indexEntityWithNewComponents_def
  by (simp add: for_each_queue [of "index_new e added", OF index_new_queue])

lemma indexEntityWithRemovedComponents_queue:
  "indexEntityWithRemovedComponents e removed (w\<lparr> queue := q \<rparr>) =
     map_sum id (\<lambda>w'. w'\<lparr> queue := q \<rparr>) (indexEntityWithRemovedComponents e removed w)"
  unfolding indexEntityWithRemovedComponents_def
  by (simp add: for_each_queue [of "index_removed e removed", OF index_removed_queue])

lemma removeEntityFromAllIndices_queue:
  "removeEntityFromAllIndices e (w\<lparr> queue := q \<rparr>) =
     map_sum id (\<lambda>w'. w'\<lparr> queue := q \<rparr>) (removeEntityFromAllIndices e w)"
  unfolding removeEntityFromAllIndices_def
  by (simp add: for_each_queue [of "remove_from_index e", OF remove_from_index_queue])

lemma update_object_queue:
  "update_object e f (w\<lparr> queue := q \<rparr>) = (update_object e f w)\<lparr> queue := q \<rparr>"
  by (simp add: update_object_def)

lemma immediately_addEntity_queue:
  "immediately_addEntity (w\<lparr> queue := q \<rparr>) e =
     map_sum id (\<lambda>(e', w'). (e', w'\<lparr> queue := q \<rparr>)) (immediately_addEntity w e)"
proof (cases "has_property ''id'' (objects w e)")
  case True
  then show ?thesis by (simp add: immediately_addEntity_def)
next
  case False
  let ?w1 = "update_object e (assign ''id'' (JNum (nextId w))) (w\<lparr> nextId := nextId w + 1 \<rparr>)"
  let ?w2 = "?w1\<lparr> entities := entities ?w1 @ [e] \<rparr>"
  let ?v1 = "update_object e (assign ''id'' (JNum (nextId (w\<lparr> queue := q \<rparr>))))
               (w\<lparr> queue := q \<rparr>\<lparr> nextId := nextId (w\<lparr> queue := q \<rparr>) + 1 \<rparr>)"
  let ?v2 = "?v1\<lparr> entities := entities ?v1 @ [e] \<rparr>"
  have v2: "?v2 = ?w2\<lparr> queue := q \<rparr>" by (simp add: update_object_def)
  have keys: "Object_keys (objects ?v2 e) = Object_keys (objects ?w2 e)"
    by (simp add: update_object_def)
  have l: "immediately_addEntity (w\<lparr> queue := q \<rparr>) e =
        (case indexEntityWithNewComponents e (Object_keys (objects ?v2 e)) ?v2 of
           Inl err \<Rightarrow> Inl err | Inr w3 \<Rightarrow> Inr (e, w3))"
    using False by (simp add: immediately_addEntity_def Let_def)
  have r: "immediately_addEntity w e =
        (case indexEntityWithNewComponents e (Object_keys (objects ?w2 e)) ?w2 of
           Inl err \<Rightarrow> Inl err | Inr w3 \<Rightarrow> Inr (e, w3))"
    using False by (simp add: immediately_addEntity_def Let_def)
  show ?thesis
    unfolding l r keys v2 indexEntityWithNewComponents_queue
    by (cases "indexEntityWithNewComponents e (Object_keys (objects ?w2 e)) ?w2") simp_all
qed

lemma immediately_removeEntity_queue:
  "immediately_removeEntity (w\<lparr> queue := q \<rparr>) e =
     map_sum id (\<lambda>w'. w'\<lparr> queue := q \<rparr>) (immediately_removeEntity w e)"
  unfolding immediately_removeEntity_def removeEntityFromAllIndices_queue
  by (cases "removeEntityFromAllIndices e w") (simp_all add: update_object_def Let_def)

lemma immediately_addComponent_queue:
  "immediately_addComponent (w\<lparr> queue := q \<rparr>) e name data =
     map_sum id (\<lambda>w'. w'\<lparr> queue := q \<rparr>) (immediately_addComponent w e name data)"
  unfolding immediately_addComponent_def update_object_queue indexEntityWithNewComponents_queue
  by simp

lemma immediately_removeComponent_queue:
  "immediately_removeComponent (w\<lparr> queue := q \<rparr>) e names =
     map_sum id (\<lambda>w'. w'\<lparr> queue := q \<rparr>) (immediately_removeComponent w e names)"
  unfolding immediately_removeComponent_def update_object_queue indexEntityWithRemovedComponents_queue
  by simp

lemma execute_queue:
  "execute c (w\<lparr> queue := q \<rparr>) = map_sum id (\<lambda>w'. w'\<lparr> queue := q \<rparr>) (execute c w)"
proof (cases c)
  case (CmdAddEntity e)
  then show ?thesis
    by (cases "immediately_addEntity w e") (auto simp: immediately_addEntity_queue)
next
  case (CmdRemoveEntity e)
  then show ?thesis by (simp add: immediately_removeEntity_queue)
next
  case (CmdAddComponent e name data)
  then show ?thesis by (simp add: immediately_addComponent_queue)
next
  case (CmdRemoveComponent e names)
  then show ?thesis by (simp add: immediately_removeComponent_queue)
qed

lemma execute_all_queue:
  "execute_all cs (w\<lparr> queue := q \<rparr>) = map_sum id (\<lambda>w'. w'\<lparr> queue := q \<rparr>) (execute_all cs w)"
proof (induction cs arbitrary: w)
  case Nil
  show ?case by simp
next
  case (Cons c cs)
  show ?case by (cases "execute c w") (simp_all add: execute_queue Cons.IH)
qed

lemma fold_deferred: "fold deferred cs w = w\<lparr> queue := queue w @ cs \<rparr>"
proof (induction cs arbitrary: w)
  case Nil
  show ?case by simp
next
  case (Cons c cs)
  have "deferred c w = w\<lparr> queue := queue w @ [c] \<rparr>"
    by (cases c) (simp_all add: addEntity_def removeEntity_def addComponent_def removeComponent_def queue_add_def)
  then show ?case by (simp add: Cons.IH)
qed

lemma flush_after_deferred:
  "flush (fold deferred cs w) = map_sum id (\<lambda>w'. w'\<lparr> queue := [] \<rparr>) (execute_all (queue w @ cs) w)"
  by (cases "execute_all (queue w @ cs) w")
     (simp_all add: flush_def queue_flush_def fold_deferred execute_all_queue)


lemma logical_key_set:
  "set xs = set ys \<Longrightarrow> logical_key xs = logical_key ys"
  unfolding logical_key_def
  by (rule sorted_distinct_set_unique) (simp_all add: sorted_remdups)

lemma createArchetype_cached:
  "memoizedArchetypes w (logical_key (sort names)) = Some a \<Longrightarrow> fst (createArchetype w names) = a"
  by (simp add: createArchetype_def fetch_def Let_def map_add_def)

lemma createArchetype_caches:
  "memoizedArchetypes (snd (createArchetype w names)) (logical_key (sort names))
     = Some (fst (createArchetype w names))"
  by (simp add: createArchetype_def fetch_def Let_def map_add_def split: option.splits)

lemma createArchetype_registers:
  "map_of (archetypes (snd (createArchetype w names))) (fst (createArchetype w names)) \<noteq> None"
  by (auto simp: createArchetype_def fetch_def Let_def map_add_def split: option.splits)

lemma createArchetype_keeps_cache:
  "memoizedArchetypes w k = Some a \<Longrightarrow> memoizedArchetypes (snd (createArchetype w names)) k = Some a"
  by (auto simp: createArchetype_def fetch_def Let_def map_add_def split: option.splits)

lemma createArchetype_keeps_keys:
  "map_of (archetypes w) a \<noteq> None \<Longrightarrow> map_of (archetypes (snd (createArchetype w names))) a \<noteq> None"
  by (auto simp: createArchetype_def fetch_def Let_def map_add_def split: option.splits)

lemma createArchetype_registered:
  "map_of (archetypes w) (fst (createArchetype w names)) \<noteq> None \<Longrightarrow>
     snd (createArchetype w names) =
       w\<lparr> arrays := (arrays w)(nextRef w \<mapsto> sort names), nextRef := nextRef w + 1,
          memoizedArchetypes := memoizedArchetypes (snd (createArchetype w names)) \<rparr>"
  by (auto simp: createArchetype_def fetch_def Let_def map_add_def split: option.splits)

lemma createArchetype_well_formed:
  assumes "well_formed w"
  shows "well_formed (snd (createArchetype w names))"
proof -
  have "map_of (archetypes w) a = None \<Longrightarrow> a \<notin> fst ` set (archetypes w)" for a
    by (simp add: map_of_eq_None_iff)
  with assms show ?thesis
    by (auto simp: createArchetype_def fetch_def Let_def map_add_def well_formed_def list_all_iff
          split: option.splits)
qed


lemma same_keys_registered:
  "map fst xs = map fst ys \<Longrightarrow> (map_of xs a \<noteq> None) = (map_of ys a \<noteq> None)"
  by (metis map_of_eq_None_iff set_map)

lemma execute_keeps_cache:
  assumes "well_formed w" "execute c w = Inr w'"
  shows "memoizedArchetypes w' = memoizedArchetypes w"
proof (cases c)
  case (CmdAddEntity e)
  let ?w1 = "update_object e (assign ''id'' (JNum (nextId w))) (w\<lparr> nextId := nextId w + 1 \<rparr>)"
  let ?w2 = "?w1\<lparr> entities := entities ?w1 @ [e] \<rparr>"
  have wf2: "well_formed ?w2"
    using assms(1) by (simp add: well_formed_def update_object_def)
  from indexEntityWithNewComponents_total [OF wf2, of e "Object_keys (objects ?w2 e)"]
  obtain w3 where r: "indexEntityWithNewComponents e (Object_keys (objects ?w2 e)) ?w2 = Inr w3"
    and s: "loop_step (map fst (archetypes ?w2)) ?w2 w3" by blast
  from assms(2) CmdAddEntity r have "w' = w3"
    by (simp add: immediately_addEntity_def Let_def split: if_splits)
  with loop_step_frame(8) [OF s] show ?thesis by (simp add: update_object_def)
next
  case (CmdRemoveEntity e)
  from removeEntityFromAllIndices_total [OF assms(1), of e]
  obtain w1 where r: "removeEntityFromAllIndices e w = Inr w1"
    and s: "loop_step (map fst (archetypes w)) w w1" by blast
  from assms(2) CmdRemoveEntity r loop_step_frame(8) [OF s] show ?thesis
    by (auto simp: immediately_removeEntity_def Let_def update_object_def)
next
  case (CmdAddComponent e name data)
  let ?w1 = "update_object e (assign name data) w"
  have wf1: "well_formed ?w1" using assms(1) by (simp add: well_formed_def update_object_def)
  from indexEntityWithNewComponents_total [OF wf1, of e "[name]"]
  obtain w2 where r: "indexEntityWithNewComponents e [name] ?w1 = Inr w2"
    and s: "loop_step (map fst (archetypes ?w1)) ?w1 w2" by blast
  from assms(2) CmdAddComponent r loop_step_frame(8) [OF s] show ?thesis
    by (simp add: immediately_addComponent_def update_object_def)
next
  case (CmdRemoveComponent e names)
  let ?w1 = "update_object e (\<lambda>entity. fold delete_property names entity) w"
  have wf1: "well_formed ?w1" using assms(1) by (simp add: well_formed_def update_object_def)
  from indexEntityWithRemovedComponents_total [OF wf1, of e names]
  obtain w2 where r: "indexEntityWithRemovedComponents e names ?w1 = Inr w2"
    and s: "loop_step (map fst (archetypes ?w1)) ?w1 w2" by blast
  from assms(2) CmdRemoveComponent r loop_step_frame(8) [OF s] show ?thesis
    by (simp add: immediately_removeComponent_def update_object_def)
qed

lemma execute_keeps_keys:
  assumes "well_formed w" "execute c w = Inr w'"
  shows "map fst (archetypes w') = map fst (archetypes w)"
  using execute_ok [OF assms] by (simp add: fires_once_per_change_def)

lemma execute_all_ok:
  "well_formed w \<Longrightarrow> execute_all cs w = Inr w' \<Longrightarrow>
     well_formed w' \<and> memoizedArchetypes w' = memoizedArchetypes w \<and>
     map fst (archetypes w') = map fst (archetypes w)"
proof (induction cs arbitrary: w)
  case Nil
  then show ?case by simp
next
  case (Cons c cs)
  from Cons.prems(2) obtain w1 where 1: "execute c w = Inr w1" and 2: "execute_all cs w1 = Inr w'"
    by (auto split: sum.splits)
  from execute_ok [OF Cons.prems(1) 1] have wf1: "well_formed w1" by simp
  from Cons.IH [OF wf1 2] execute_keeps_cache [OF Cons.prems(1) 1] execute_keeps_keys [OF Cons.prems(1) 1]
  show ?case by simp
qed

lemma perform_ok:
  assumes "well_formed w" "perform c w = Inr w'"
  shows "well_formed w' \<and> (memoizedArchetypes w k = Some a \<longrightarrow> memoizedArchetypes w' k = Some a)
        \<and> (c \<noteq> Clear \<longrightarrow> map_of (archetypes w) b \<noteq> None \<longrightarrow> map_of (archetypes w') b \<noteq> None)"
proof (cases c)
  case (CreateArchetype names)
  with assms show ?thesis
    using createArchetype_well_formed [of w names] createArchetype_keeps_cache [of w k a names]
      createArchetype_keeps_keys [of w b names]
    by auto
next
  case (Get x)
  with assms show ?thesis by (auto simp: get_def)
next
  case (GetOne x)
  with assms show ?thesis by (auto simp: getOne_def split: option.splits)
next
  case (GetWith names)
  with assms show ?thesis
    using createArchetype_well_formed [of w names] createArchetype_keeps_cache [of w k a names]
      createArchetype_keeps_keys [of w b names]
    by (auto simp: getWith_def get_def split: prod.splits)
next
  case (Immediately x)
  with assms have e: "execute x w = Inr w'" by simp
  from execute_ok [OF assms(1) e] execute_keeps_cache [OF assms(1) e]
    same_keys_registered [OF execute_keeps_keys [OF assms(1) e], of b]
  show ?thesis by simp
next
  case (Deferred x)
  with assms show ?thesis
    by (cases x)
       (auto simp: well_formed_def addEntity_def removeEntity_def addComponent_def
          removeComponent_def queue_add_def)
next
  case Flush
  with assms obtain v where e: "execute_all (queue w) w = Inr v" and w': "w' = v\<lparr> queue := [] \<rparr>"
    by (auto simp: flush_def queue_flush_def split: sum.splits)
  from execute_all_ok [OF assms(1) e] have "well_formed v"
    and m: "memoizedArchetypes v = memoizedArchetypes w"
    and k: "map fst (archetypes v) = map fst (archetypes w)" by simp_all
  then have "well_formed w'" using w' by (simp add: well_formed_def)
  moreover have "memoizedArchetypes w' = memoizedArchetypes w" using m w' by simp
  moreover have "(map_of (archetypes w') b \<noteq> None) = (map_of (archetypes w) b \<noteq> None)"
    using same_keys_registered [OF k, of b] w' by simp
  ultimately show ?thesis by simp
next
  case Clear
  with assms show ?thesis by (auto simp: clear_def queue_clear_def well_formed_def)
next
  case (Subscribe x cb)
  with assms obtain registry where r: "listeners w x = Some registry"
    and w': "w' = w\<lparr> listeners := (listeners w)(x \<mapsto>
                 (if cb \<in> set registry then registry else registry @ [cb])) \<rparr>"
    by (auto split: option.splits)
  have "listeners w' b' \<noteq> None" if "listeners w b' \<noteq> None" for b'
    using that by (simp add: w')
  then have "well_formed w'"
    using assms(1) by (simp add: well_formed_def list_all_iff w')
  then show ?thesis using Subscribe by (simp add: w')
next
  case (Mutate e properties)
  with assms show ?thesis by (auto simp: well_formed_def)
qed

lemma perform_all_ok:
  "well_formed w \<Longrightarrow> perform_all cs w = Inr w' \<Longrightarrow>
     well_formed w' \<and>
     (memoizedArchetypes w k = Some a \<longrightarrow> memoizedArchetypes w' k = Some a) \<and>
     (Clear \<notin> set cs \<longrightarrow> map_of (archetypes w) b \<noteq> None \<longrightarrow> map_of (archetypes w') b \<noteq> None)"
proof (induction cs arbitrary: w)
  case Nil
  then show ?case by simp
next
  case (Cons c cs)
  from Cons.prems(2) obtain w1 where 1: "perform c w = Inr w1" and 2: "perform_all cs w1 = Inr w'"
    by (auto split: sum.splits)
  from perform_ok [OF Cons.prems(1) 1, of k a b] Cons.IH [OF _ 2]
  show ?case by auto
qed

lemma createWorld_well_formed: "well_formed (createWorld objs)"
  by (simp add: createWorld_def well_formed_def)

lemma reachable_well_formed:
  "perform_all cs (createWorld objs) = Inr w \<Longrightarrow> well_formed w"
  using perform_all_ok [OF createWorld_well_formed] by blast


lemma property_assign: "property (assign name v entity) name = v"
  by (simp add: property_def assign_def update_conv')

lemma has_property_assign: "has_property name (assign name v entity)"
  by (simp add: has_property_def assign_def update_conv')


section \<open>What a clean command does to a consistent store\<close>

text \<open>
  \<^verbatim>\<open>indexOf\<close> and \<^verbatim>\<open>splice\<close> of an element that the array holds remove its first
  occurrence; a pass of a loop over the archetypes whose body changes the index of an
  archetype under a condition, and then invokes its listeners, changes exactly the
  indices that meet the condition and notifies exactly their archetypes, in the order of
  the map.
\<close>

lemma indexOf_absent: "x \<notin> set xs \<Longrightarrow> indexOf xs x = - 1"
  by (induction xs) (auto simp: Let_def)

lemma indexOf_present: "x \<in> set xs \<Longrightarrow> 0 \<le> indexOf xs x"
  by (induction xs) (auto simp: Let_def)

lemma indexOf_nonneg_iff: "0 \<le> indexOf xs x \<longleftrightarrow> x \<in> set xs"
  by (cases "x \<in> set xs") (simp_all add: indexOf_absent indexOf_present)

lemma Array_splice_Cons:
  "0 \<le> i \<Longrightarrow> Array_splice (y # ys) (i + 1) n = y # Array_splice ys i n"
  by (simp add: Array_splice_def Let_def min_def nat_add_distrib)

lemma Array_splice_0: "Array_splice (y # ys) 0 (Suc n) = drop n ys"
  by (simp add: Array_splice_def Let_def)

lemma splice_indexOf: "x \<in> set xs \<Longrightarrow> Array_splice xs (indexOf xs x) 1 = remove1 x xs"
proof (induction xs)
  case Nil
  then show ?case by simp
next
  case (Cons y ys)
  show ?case
  proof (cases "y = x")
    case True
    then show ?thesis by (simp add: Array_splice_0)
  next
    case False
    with Cons.prems have x: "x \<in> set ys" by simp
    from indexOf_present [OF x] have "\<not> indexOf ys x < 0" by simp
    with False Cons.IH [OF x] indexOf_present [OF x] show ?thesis
      by (simp add: Let_def Array_splice_Cons)
  qed
qed

lemma names_of_cong: "arrays v = arrays w \<Longrightarrow> names_of v a = names_of w a"
  by (simp add: names_of_def)

lemma index_of_update:
  "index_of (v\<lparr> archetypes := AList.update a idx (archetypes v), notified := n \<rparr>) b
     = (if b = a then idx else index_of v b)"
  by (simp add: index_of_def update_conv')

lemma for_each_indices:
  assumes body: "\<And>a v. a \<in> set (map fst (archetypes v)) \<Longrightarrow> objects v = objs \<Longrightarrow> arrays v = arrs \<Longrightarrow>
       body a v = (if f a (index_of v a) then invoke a (set_index a (g a (index_of v a)) v) else Inr v)"
  shows "distinct ks \<Longrightarrow> set ks \<subseteq> set (map fst (archetypes v)) \<Longrightarrow>
         \<forall>a\<in>set ks. listeners v a \<noteq> None \<Longrightarrow> objects v = objs \<Longrightarrow> arrays v = arrs \<Longrightarrow>
     \<exists>v' evs. for_each body ks v = Inr v' \<and>
          v' = v\<lparr> archetypes := archetypes v', notified := notified v @ evs \<rparr> \<and>
          map fst (archetypes v') = map fst (archetypes v) \<and>
          (\<forall>a. index_of v' a = (if a \<in> set ks \<and> f a (index_of v a) then g a (index_of v a)
                                 else index_of v a)) \<and>
          map fst evs = filter (\<lambda>a. f a (index_of v a)) ks \<and>
          list_all (\<lambda>(a, r). listeners v a = Some r) evs"
proof (induction ks arbitrary: v)
  case Nil
  show ?case by (rule exI [of _ v], rule exI [of _ "[]"]) simp
next
  case (Cons a ks)
  have a: "a \<in> set (map fst (archetypes v))" using Cons.prems(2) by simp
  from Cons.prems(3) obtain r where r: "listeners v a = Some r" by auto
  have b: "body a v = (if f a (index_of v a) then invoke a (set_index a (g a (index_of v a)) v) else Inr v)"
    by (rule body [OF a Cons.prems(4,5)])
  show ?case
  proof (cases "f a (index_of v a)")
    case False
    from Cons.IH [OF _ _ _ Cons.prems(4,5)] Cons.prems(1,2,3)
    obtain v' evs where 1: "for_each body ks v = Inr v'"
      and 2: "v' = v\<lparr> archetypes := archetypes v', notified := notified v @ evs \<rparr>"
      and 3: "map fst (archetypes v') = map fst (archetypes v)"
      and 4: "\<forall>b. index_of v' b = (if b \<in> set ks \<and> f b (index_of v b) then g b (index_of v b)
                                 else index_of v b)"
      and 5: "map fst evs = filter (\<lambda>a. f a (index_of v a)) ks"
      and 6: "list_all (\<lambda>(a, r). listeners v a = Some r) evs"
      by auto
    have "for_each body (a # ks) v = Inr v'" using b False 1 by simp
    moreover have "\<forall>b. index_of v' b = (if b \<in> set (a # ks) \<and> f b (index_of v b)
                        then g b (index_of v b) else index_of v b)"
      using 4 False by auto
    moreover have "map fst evs = filter (\<lambda>a. f a (index_of v a)) (a # ks)"
      using 5 False by simp
    ultimately show ?thesis using 2 3 6 by blast
  next
    case True
    let ?v1 = "v\<lparr> archetypes := AList.update a (g a (index_of v a)) (archetypes v),
                   notified := notified v @ [(a, r)] \<rparr>"
    have b1: "body a v = Inr ?v1"
      using b True r by (simp add: invoke_def set_index_def)
    have k1: "map fst (archetypes ?v1) = map fst (archetypes v)"
      using a by (simp add: update_keys)
    have i1: "index_of ?v1 b = (if b = a then g a (index_of v a) else index_of v b)" for b
      by (rule index_of_update)
    have "\<exists>v' evs. for_each body ks ?v1 = Inr v' \<and>
          v' = ?v1\<lparr> archetypes := archetypes v', notified := notified ?v1 @ evs \<rparr> \<and>
          map fst (archetypes v') = map fst (archetypes ?v1) \<and>
          (\<forall>a. index_of v' a = (if a \<in> set ks \<and> f a (index_of ?v1 a) then g a (index_of ?v1 a)
                                 else index_of ?v1 a)) \<and>
          map fst evs = filter (\<lambda>a. f a (index_of ?v1 a)) ks \<and>
          list_all (\<lambda>(a, r). listeners ?v1 a = Some r) evs"
    proof (rule Cons.IH)
      show "distinct ks" using Cons.prems(1) by simp
      show "set ks \<subseteq> set (map fst (archetypes ?v1))" using Cons.prems(2) k1 by simp
      show "\<forall>a\<in>set ks. listeners ?v1 a \<noteq> None" using Cons.prems(3) by simp
      show "objects ?v1 = objs" using Cons.prems(4) by simp
      show "arrays ?v1 = arrs" using Cons.prems(5) by simp
    qed
    then obtain v' evs where 1: "for_each body ks ?v1 = Inr v'"
      and 2: "v' = ?v1\<lparr> archetypes := archetypes v', notified := notified ?v1 @ evs \<rparr>"
      and 3: "map fst (archetypes v') = map fst (archetypes ?v1)"
      and 4: "\<forall>b. index_of v' b = (if b \<in> set ks \<and> f b (index_of ?v1 b) then g b (index_of ?v1 b)
                                 else index_of ?v1 b)"
      and 5: "map fst evs = filter (\<lambda>a. f a (index_of ?v1 a)) ks"
      and 6: "list_all (\<lambda>(a, r). listeners ?v1 a = Some r) evs"
      by blast
    have na: "a \<notin> set ks" using Cons.prems(1) by simp
    have same: "b \<in> set ks \<Longrightarrow> index_of ?v1 b = index_of v b" for b
      using na by (auto simp: i1)
    have "for_each body (a # ks) v = Inr v'" using b1 1 by simp
    moreover have "v' = v\<lparr> archetypes := archetypes v', notified := notified v @ ((a, r) # evs) \<rparr>"
      by (subst 2) simp
    moreover have "map fst (archetypes v') = map fst (archetypes v)" using 3 k1 by simp
    moreover have "\<forall>b. index_of v' b = (if b \<in> set (a # ks) \<and> f b (index_of v b)
                        then g b (index_of v b) else index_of v b)"
    proof
      fix b
      show "index_of v' b = (if b \<in> set (a # ks) \<and> f b (index_of v b)
                        then g b (index_of v b) else index_of v b)"
      proof (cases "b \<in> set ks")
        case True
        with 4 same [OF True] show ?thesis by simp
      next
        case False
        with 4 have "index_of v' b = index_of ?v1 b" by simp
        with False \<open>f a (index_of v a)\<close> show ?thesis by (simp add: i1)
      qed
    qed
    moreover have "map fst ((a, r) # evs) = filter (\<lambda>a. f a (index_of v a)) (a # ks)"
    proof -
      have "filter (\<lambda>a. f a (index_of ?v1 a)) ks = filter (\<lambda>a. f a (index_of v a)) ks"
        by (rule filter_cong) (simp_all add: same)
      with 5 True show ?thesis by simp
    qed
    moreover have "list_all (\<lambda>(a, r). listeners v a = Some r) ((a, r) # evs)"
      using 6 r by simp
    ultimately show ?thesis by blast
  qed
qed


lemma exact_membership_iff:
  assumes "distinct (map fst (archetypes w))"
  shows "exact_membership w \<longleftrightarrow>
           (\<forall>a \<in> set (map fst (archetypes w)).
              distinct (index_of w a) \<and>
              set (index_of w a)
                = {x \<in> set (entities w). entityIsArchetype (objects w x) (names_of w a)})"
proof -
  have 1: "index_of w a = idx" if "(a, idx) \<in> set (archetypes w)" for a idx
    using map_of_is_SomeI [OF assms that] by (simp add: index_of_def)
  have 2: "(a, index_of w a) \<in> set (archetypes w)" if "a \<in> set (map fst (archetypes w))" for a
  proof -
    from that obtain idx where "(a, idx) \<in> set (archetypes w)" by auto
    with 1 [OF this] show ?thesis by simp
  qed
  show ?thesis
  proof
    assume e: "exact_membership w"
    show "\<forall>a \<in> set (map fst (archetypes w)).
              distinct (index_of w a) \<and>
              set (index_of w a)
                = {x \<in> set (entities w). entityIsArchetype (objects w x) (names_of w a)}"
    proof
      fix a assume "a \<in> set (map fst (archetypes w))"
      from 2 [OF this] e show "distinct (index_of w a) \<and>
              set (index_of w a)
                = {x \<in> set (entities w). entityIsArchetype (objects w x) (names_of w a)}"
        unfolding exact_membership_def list_all_iff by fastforce
    qed
  next
    assume r: "\<forall>a \<in> set (map fst (archetypes w)).
              distinct (index_of w a) \<and>
              set (index_of w a)
                = {x \<in> set (entities w). entityIsArchetype (objects w x) (names_of w a)}"
    have "distinct idx \<and> set idx = set (filter (\<lambda>entity. entityIsArchetype (objects w entity) (names_of w a))
                            (entities w))"
      if "(a, idx) \<in> set (archetypes w)" for a idx
    proof -
      from that have "a \<in> set (map fst (archetypes w))" by force
      with r 1 [OF that] show ?thesis by auto
    qed
    then show "exact_membership w"
      unfolding exact_membership_def list_all_iff by auto
  qed
qed

lemma property_assign_iff: "property (assign n d obj) m = (if m = n then d else property obj m)"
  by (simp add: property_def assign_def update_conv')

lemma map_of_fold_delete:
  "map_of (fold delete_property ns obj) = (\<lambda>m. if m \<in> set ns then None else map_of obj m)"
proof (induction ns arbitrary: obj)
  case Nil
  show ?case by simp
next
  case (Cons n ns)
  show ?case by (simp add: Cons.IH) (auto simp: delete_property_def delete_conv')
qed

lemma property_fold_delete:
  "property (fold delete_property ns obj) m = (if m \<in> set ns then JUndefined else property obj m)"
  by (simp add: property_def map_of_fold_delete)

lemma defined_property_key: "property obj m \<noteq> JUndefined \<Longrightarrow> m \<in> set (Object_keys obj)"
  by (auto simp: property_def Object_keys_def split: option.splits dest: map_of_SomeD intro: rev_image_eqI)

lemma satisfied_mentions:
  assumes "entityIsArchetype obj names" "names \<noteq> []"
  shows "list_ex (\<lambda>c. c \<in> set (Object_keys obj)) names"
proof -
  from assms(2) obtain m where m: "m \<in> set names" by (cases names) auto
  with assms(1) have "property obj m \<noteq> JUndefined"
    by (simp add: entityIsArchetype_def list_all_iff)
  from defined_property_key [OF this] m show ?thesis by (auto simp: list_ex_iff)
qed

lemma new_components_loop:
  assumes "well_formed w"
  shows "\<exists>w' evs. indexEntityWithNewComponents e added w = Inr w' \<and>
          w' = w\<lparr> archetypes := archetypes w', notified := notified w @ evs \<rparr> \<and>
          map fst (archetypes w') = map fst (archetypes w) \<and>
          (\<forall>a. index_of w' a =
             (if a \<in> set (map fst (archetypes w)) \<and>
                 list_ex (\<lambda>c. c \<in> set added) (names_of w a) \<and>
                 entityIsArchetype (objects w e) (names_of w a) \<and> e \<notin> set (index_of w a)
              then index_of w a @ [e] else index_of w a)) \<and>
          map fst evs = filter (\<lambda>a. list_ex (\<lambda>c. c \<in> set added) (names_of w a) \<and>
                 entityIsArchetype (objects w e) (names_of w a) \<and> e \<notin> set (index_of w a))
                          (map fst (archetypes w)) \<and>
          list_all (\<lambda>(a, r). listeners w a = Some r) evs"
  unfolding indexEntityWithNewComponents_def
proof (rule for_each_indices [where objs = "objects w" and arrs = "arrays w"
      and g = "\<lambda>a idx. idx @ [e]"
      and f = "\<lambda>a idx. list_ex (\<lambda>c. c \<in> set added) (names_of w a) \<and>
                 entityIsArchetype (objects w e) (names_of w a) \<and> e \<notin> set idx"])
  show "distinct (map fst (archetypes w))" using assms by (simp add: well_formed_def)
  show "set (map fst (archetypes w)) \<subseteq> set (map fst (archetypes w))" by simp
  show "\<forall>a\<in>set (map fst (archetypes w)). listeners w a \<noteq> None"
    using assms by (simp add: well_formed_def list_all_iff)
  show "objects w = objects w" "arrays w = arrays w" by simp_all
  fix a and v :: world
  assume "objects v = objects w" "arrays v = arrays w"
  then show "index_new e added a v =
       (if list_ex (\<lambda>c. c \<in> set added) (names_of w a) \<and>
           entityIsArchetype (objects w e) (names_of w a) \<and> e \<notin> set (index_of v a)
        then invoke a (set_index a (index_of v a @ [e]) v) else Inr v)"
    by (simp add: index_new_def names_of_cong [of v w])
qed

lemma removed_components_loop:
  assumes "well_formed w"
  shows "\<exists>w' evs. indexEntityWithRemovedComponents e removed w = Inr w' \<and>
          w' = w\<lparr> archetypes := archetypes w', notified := notified w @ evs \<rparr> \<and>
          map fst (archetypes w') = map fst (archetypes w) \<and>
          (\<forall>a. index_of w' a =
             (if a \<in> set (map fst (archetypes w)) \<and>
                 list_ex (\<lambda>c. c \<in> set removed) (names_of w a) \<and>
                 \<not> entityIsArchetype (objects w e) (names_of w a)
              then Array_splice (index_of w a) (indexOf (index_of w a) e) 1 else index_of w a)) \<and>
          map fst evs = filter (\<lambda>a. list_ex (\<lambda>c. c \<in> set removed) (names_of w a) \<and>
                 \<not> entityIsArchetype (objects w e) (names_of w a))
                          (map fst (archetypes w)) \<and>
          list_all (\<lambda>(a, r). listeners w a = Some r) evs"
  unfolding indexEntityWithRemovedComponents_def
proof (rule for_each_indices [where objs = "objects w" and arrs = "arrays w"
      and g = "\<lambda>a idx. Array_splice idx (indexOf idx e) 1"
      and f = "\<lambda>a idx. list_ex (\<lambda>c. c \<in> set removed) (names_of w a) \<and>
                 \<not> entityIsArchetype (objects w e) (names_of w a)"])
  show "distinct (map fst (archetypes w))" using assms by (simp add: well_formed_def)
  show "set (map fst (archetypes w)) \<subseteq> set (map fst (archetypes w))" by simp
  show "\<forall>a\<in>set (map fst (archetypes w)). listeners w a \<noteq> None"
    using assms by (simp add: well_formed_def list_all_iff)
  show "objects w = objects w" "arrays w = arrays w" by simp_all
  fix a and v :: world
  assume "objects v = objects w" "arrays v = arrays w"
  then show "index_removed e removed a v =
       (if list_ex (\<lambda>c. c \<in> set removed) (names_of w a) \<and>
           \<not> entityIsArchetype (objects w e) (names_of w a)
        then invoke a (set_index a (Array_splice (index_of v a) (indexOf (index_of v a) e) 1) v)
        else Inr v)"
    by (simp add: index_removed_def names_of_cong [of v w])
qed

lemma remove_from_all_loop:
  assumes "well_formed w"
  shows "\<exists>w' evs. removeEntityFromAllIndices e w = Inr w' \<and>
          w' = w\<lparr> archetypes := archetypes w', notified := notified w @ evs \<rparr> \<and>
          map fst (archetypes w') = map fst (archetypes w) \<and>
          (\<forall>a. index_of w' a =
             (if a \<in> set (map fst (archetypes w)) \<and> 0 \<le> indexOf (index_of w a) e
              then Array_splice (index_of w a) (indexOf (index_of w a) e) 1 else index_of w a)) \<and>
          map fst evs = filter (\<lambda>a. 0 \<le> indexOf (index_of w a) e) (map fst (archetypes w)) \<and>
          list_all (\<lambda>(a, r). listeners w a = Some r) evs"
  unfolding removeEntityFromAllIndices_def
proof (rule for_each_indices [where objs = "objects w" and arrs = "arrays w"
      and g = "\<lambda>a idx. Array_splice idx (indexOf idx e) 1"
      and f = "\<lambda>a idx. 0 \<le> indexOf idx e"])
  show "distinct (map fst (archetypes w))" using assms by (simp add: well_formed_def)
  show "set (map fst (archetypes w)) \<subseteq> set (map fst (archetypes w))" by simp
  show "\<forall>a\<in>set (map fst (archetypes w)). listeners w a \<noteq> None"
    using assms by (simp add: well_formed_def list_all_iff)
  show "objects w = objects w" "arrays w = arrays w" by simp_all
  fix a and v :: world
  show "remove_from_index e a v =
       (if 0 \<le> indexOf (index_of v a) e
        then invoke a (set_index a (Array_splice (index_of v a) (indexOf (index_of v a) e) 1) v)
        else Inr v)"
    by (simp add: remove_from_index_def Let_def)
qed

lemma frame_facts:
  assumes "w' = v\<lparr> archetypes := A, notified := N \<rparr>"
  shows "objects w' = objects v" "arrays w' = arrays v" "entities w' = entities v"
    "nextId w' = nextId v" "listeners w' = listeners v" "queue w' = queue v"
    "notified w' = N" "archetypes w' = A"
  using assms by simp_all

lemma index_of_cong: "archetypes v = archetypes w \<Longrightarrow> index_of v a = index_of w a"
  by (simp add: index_of_def)

lemma fired_iff_changedI:
  assumes "distinct (map fst (archetypes w))"
    and "map fst (archetypes w') = map fst (archetypes w)"
    and "notified w' = notified w @ evs"
    and "map fst evs = filter P (map fst (archetypes w))"
    and "list_all (\<lambda>(a, r). listeners w a = Some r) evs"
    and "\<And>a. a \<in> set (map fst (archetypes w)) \<Longrightarrow> P a = (index_of w' a \<noteq> index_of w a)"
  shows "fired_iff_changed w w'"
proof -
  have ne: "new_events w w' = filter P (map fst (archetypes w))"
    using assms(3,4) by (simp add: new_events_def)
  show ?thesis
    unfolding fired_iff_changed_def ne
    using assms(1,2,3,5,6) by (auto simp: list_all_iff)
qed

lemma fired_iff_changed_cong:
  assumes "archetypes v = archetypes w" "notified v = notified w" "listeners v = listeners w"
    and "archetypes v' = archetypes w'" "notified v' = notified w'"
  shows "fired_iff_changed v v' = fired_iff_changed w w'"
  using assms by (simp add: fired_iff_changed_def new_events_def index_of_def)

lemma consistentI:
  assumes "distinct (map fst (archetypes w))"
    and "\<And>a. a \<in> set (map fst (archetypes w)) \<Longrightarrow> listeners w a \<noteq> None"
    and "\<And>a. a \<in> set (map fst (archetypes w)) \<Longrightarrow> names_of w a \<noteq> []"
    and "distinct (entities w)"
    and "\<And>a. a \<in> set (map fst (archetypes w)) \<Longrightarrow>
           distinct (index_of w a) \<and>
           set (index_of w a) = {x \<in> set (entities w). entityIsArchetype (objects w x) (names_of w a)}"
  shows "consistent w"
  unfolding consistent_def well_formed_def exact_membership_iff [OF assms(1)]
  using assms by (auto simp: list_all_iff)

lemma consistentD:
  assumes "consistent w"
  shows "well_formed w" "distinct (map fst (archetypes w))" "distinct (entities w)"
    and "\<And>a. a \<in> set (map fst (archetypes w)) \<Longrightarrow> listeners w a \<noteq> None"
    and "\<And>a. a \<in> set (map fst (archetypes w)) \<Longrightarrow> names_of w a \<noteq> []"
    and "\<And>a. a \<in> set (map fst (archetypes w)) \<Longrightarrow> distinct (index_of w a)"
    and "\<And>a. a \<in> set (map fst (archetypes w)) \<Longrightarrow>
           set (index_of w a) = {x \<in> set (entities w). entityIsArchetype (objects w x) (names_of w a)}"
proof -
  from assms have wf: "well_formed w" and d: "distinct (map fst (archetypes w))"
    by (simp_all add: consistent_def well_formed_def)
  from assms have ex: "exact_membership w" by (simp add: consistent_def)
  show "well_formed w" by (rule wf)
  show "distinct (map fst (archetypes w))" by (rule d)
  show "distinct (entities w)" using assms by (simp add: consistent_def)
  show "\<And>a. a \<in> set (map fst (archetypes w)) \<Longrightarrow> listeners w a \<noteq> None"
    using wf by (auto simp: well_formed_def list_all_iff)
  show "\<And>a. a \<in> set (map fst (archetypes w)) \<Longrightarrow> names_of w a \<noteq> []"
    using assms by (auto simp: consistent_def list_all_iff)
  show "\<And>a. a \<in> set (map fst (archetypes w)) \<Longrightarrow> distinct (index_of w a)"
    using ex unfolding exact_membership_iff [OF d] by blast
  show "\<And>a. a \<in> set (map fst (archetypes w)) \<Longrightarrow>
           set (index_of w a) = {x \<in> set (entities w). entityIsArchetype (objects w x) (names_of w a)}"
    using ex unfolding exact_membership_iff [OF d] by blast
qed

lemma addEntity_updated:
  assumes c: "consistent w" and cl: "clean (CmdAddEntity e) w"
  shows "\<exists>w'. execute (CmdAddEntity e) w = Inr w' \<and> updated (CmdAddEntity e) w w'"
proof -
  define v where "v = (update_object e (assign ''id'' (JNum (nextId w))) (w\<lparr> nextId := nextId w + 1 \<rparr>))
                        \<lparr> entities := entities w @ [e] \<rparr>"
  have v: "archetypes v = archetypes w" "listeners v = listeners w" "notified v = notified w"
    "arrays v = arrays w" "queue v = queue w" "entities v = entities w @ [e]"
    "objects v = (objects w)(e := assign ''id'' (JNum (nextId w)) (objects w e))"
    "nextId v = nextId w + 1"
    by (simp_all add: v_def update_object_def)
  have n: "names_of v a = names_of w a" for a by (rule names_of_cong) (rule v)
  have i: "index_of v a = index_of w a" for a by (rule index_of_cong) (rule v)
  have wf: "well_formed v" using consistentD(1) [OF c] by (simp add: well_formed_def v)
  from new_components_loop [OF wf, of e "Object_keys (objects v e)"]
  obtain w' evs where run: "indexEntityWithNewComponents e (Object_keys (objects v e)) v = Inr w'"
    and eq: "w' = v\<lparr> archetypes := archetypes w', notified := notified v @ evs \<rparr>"
    and keys: "map fst (archetypes w') = map fst (archetypes v)"
    and idx: "\<And>a. index_of w' a =
             (if a \<in> set (map fst (archetypes v)) \<and>
                 list_ex (\<lambda>c. c \<in> set (Object_keys (objects v e))) (names_of v a) \<and>
                 entityIsArchetype (objects v e) (names_of v a) \<and> e \<notin> set (index_of v a)
              then index_of v a @ [e] else index_of v a)"
    and evs: "map fst evs = filter (\<lambda>a. list_ex (\<lambda>c. c \<in> set (Object_keys (objects v e))) (names_of v a) \<and>
                 entityIsArchetype (objects v e) (names_of v a) \<and> e \<notin> set (index_of v a))
                          (map fst (archetypes v))"
    and reg: "list_all (\<lambda>(a, r). listeners v a = Some r) evs"
    by blast
  note f = frame_facts [OF eq]
  have n': "names_of w' a = names_of w a" for a
    using names_of_cong [OF f(2), of a] n by simp
  from cl have noid: "\<not> has_property ''id'' (objects w e)" and new: "e \<notin> set (entities w)" by simp_all
  have ex: "execute (CmdAddEntity e) w = Inr w'"
    using noid run by (simp add: immediately_addEntity_def Let_def v_def update_object_def)
  have absent: "e \<notin> set (index_of w a)" if "a \<in> set (map fst (archetypes w))" for a
    using consistentD(7) [OF c that] new by simp
  have idx': "index_of w' a =
      (if entityIsArchetype (objects v e) (names_of w a) then index_of w a @ [e] else index_of w a)"
    if "a \<in> set (map fst (archetypes w))" for a
    using idx [of a] that absent [OF that] consistentD(5) [OF c that]
      satisfied_mentions [of "objects v e" "names_of w a"]
    by (auto simp: n i v(1))
  have fired: "fired_iff_changed v w'"
  proof (rule fired_iff_changedI [OF _ keys f(7) evs reg])
    show "distinct (map fst (archetypes v))" using consistentD(2) [OF c] by (simp add: v)
    fix a assume "a \<in> set (map fst (archetypes v))"
    then have a: "a \<in> set (map fst (archetypes w))" by (simp add: v)
    show "(list_ex (\<lambda>c. c \<in> set (Object_keys (objects v e))) (names_of v a) \<and>
           entityIsArchetype (objects v e) (names_of v a) \<and> e \<notin> set (index_of v a))
          = (index_of w' a \<noteq> index_of v a)"
      using idx' [OF a] absent [OF a] consistentD(5) [OF c a]
        satisfied_mentions [of "objects v e" "names_of w a"]
      by (auto simp: n i)
  qed
  have cons: "consistent w'"
  proof (rule consistentI)
    show "distinct (map fst (archetypes w'))" using consistentD(2) [OF c] by (simp add: keys v)
    show "distinct (entities w')" using consistentD(3) [OF c] new by (simp add: f v)
    fix a assume "a \<in> set (map fst (archetypes w'))"
    then have a: "a \<in> set (map fst (archetypes w))" by (simp add: keys v)
    show "listeners w' a \<noteq> None" using consistentD(4) [OF c a] by (simp add: f v)
    show "names_of w' a \<noteq> []" using consistentD(5) [OF c a] by (simp add: n')
    have other: "entityIsArchetype (objects v x) (names_of w a)
                   = entityIsArchetype (objects w x) (names_of w a)" if "x \<in> set (entities w)" for x
      using that new by (auto simp: v)
    show "distinct (index_of w' a) \<and>
           set (index_of w' a) = {x \<in> set (entities w'). entityIsArchetype (objects w' x) (names_of w' a)}"
      using consistentD(6) [OF c a] consistentD(7) [OF c a] absent [OF a] new other
      by (auto simp: idx' [OF a] n' f(1) f(3) v(6))
  qed
  have fired': "fired_iff_changed w w'"
    using fired_iff_changed_cong [of v w w' w', OF v(1) v(3) v(2)] fired by simp
  have props: "map_of (objects w' e) = (map_of (objects w e))(''id'' \<mapsto> JNum (nextId w))"
    by (simp add: f(1) v(7) assign_def update_conv')
  have others: "\<forall>entity. entity \<noteq> e \<longrightarrow> objects w' entity = objects w entity"
    by (simp add: f(1) v(7))
  have "updated (CmdAddEntity e) w w'"
    unfolding updated_def
    using cons fired' props others by (simp add: f(3) f(4) f(5) f(6) v(2) v(5) v(6) v(8))
  with ex show ?thesis by blast
qed


lemma remove1_changes: "x \<in> set xs \<Longrightarrow> remove1 x xs \<noteq> xs"
  using length_remove1 [of x xs] by (cases xs) auto

lemma removeEntity_updated:
  assumes c: "consistent w" and cl: "clean (CmdRemoveEntity e) w"
  shows "\<exists>w'. execute (CmdRemoveEntity e) w = Inr w' \<and> updated (CmdRemoveEntity e) w w'"
proof -
  from cl have old: "e \<in> set (entities w)" by simp
  from remove_from_all_loop [OF consistentD(1) [OF c], of e]
  obtain w1 evs where run: "removeEntityFromAllIndices e w = Inr w1"
    and eq: "w1 = w\<lparr> archetypes := archetypes w1, notified := notified w @ evs \<rparr>"
    and keys: "map fst (archetypes w1) = map fst (archetypes w)"
    and idx: "\<And>a. index_of w1 a =
             (if a \<in> set (map fst (archetypes w)) \<and> 0 \<le> indexOf (index_of w a) e
              then Array_splice (index_of w a) (indexOf (index_of w a) e) 1 else index_of w a)"
    and evs: "map fst evs = filter (\<lambda>a. 0 \<le> indexOf (index_of w a) e) (map fst (archetypes w))"
    and reg: "list_all (\<lambda>(a, r). listeners w a = Some r) evs"
    by blast
  note f = frame_facts [OF eq]
  define w' where "w' = (update_object e (delete_property ''id'') w1)
                          \<lparr> entities := Array_splice (entities w1) (indexOf (entities w1) e) 1 \<rparr>"
  have w': "archetypes w' = archetypes w1" "listeners w' = listeners w" "notified w' = notified w1"
    "arrays w' = arrays w" "queue w' = queue w" "entities w' = remove1 e (entities w)"
    "objects w' = (objects w)(e := delete_property ''id'' (objects w e))"
    "nextId w' = nextId w"
  proof -
    show "archetypes w' = archetypes w1" by (simp add: w'_def update_object_def)
    show "listeners w' = listeners w" by (simp add: w'_def update_object_def f(5))
    show "notified w' = notified w1" by (simp add: w'_def update_object_def)
    show "arrays w' = arrays w" by (simp add: w'_def update_object_def f(2))
    show "queue w' = queue w" by (simp add: w'_def update_object_def f(6))
    have "entities w' = Array_splice (entities w) (indexOf (entities w) e) 1"
      by (simp add: w'_def update_object_def f(3))
    then show "entities w' = remove1 e (entities w)"
      by (simp only: splice_indexOf [OF old])
    show "objects w' = (objects w)(e := delete_property ''id'' (objects w e))"
      by (simp add: w'_def update_object_def f(1))
    show "nextId w' = nextId w" by (simp add: w'_def update_object_def f(4))
  qed
  have n': "names_of w' a = names_of w a" for a by (rule names_of_cong) (rule w')
  have i': "index_of w' a = index_of w1 a" for a by (rule index_of_cong) (rule w')
  have ex: "execute (CmdRemoveEntity e) w = Inr w'"
    using run by (simp add: immediately_removeEntity_def Let_def w'_def update_object_def)
  have idx': "index_of w1 a = remove1 e (index_of w a)"
    if "a \<in> set (map fst (archetypes w))" for a
  proof (cases "e \<in> set (index_of w a)")
    case True
    with idx [of a] that splice_indexOf [OF True] show ?thesis
      by (simp add: indexOf_nonneg_iff)
  next
    case False
    with idx [of a] show ?thesis by (simp add: indexOf_nonneg_iff remove1_idem)
  qed
  have fired: "fired_iff_changed w w1"
  proof (rule fired_iff_changedI [OF consistentD(2) [OF c] keys f(7) evs reg])
    fix a assume a: "a \<in> set (map fst (archetypes w))"
    show "(0 \<le> indexOf (index_of w a) e) = (index_of w1 a \<noteq> index_of w a)"
      using remove1_changes [of e "index_of w a"] remove1_idem [of e "index_of w a"]
      by (auto simp: idx' [OF a] indexOf_nonneg_iff)
  qed
  have cons: "consistent w'"
  proof (rule consistentI)
    show "distinct (map fst (archetypes w'))" using consistentD(2) [OF c] by (simp add: keys w')
    show "distinct (entities w')" using consistentD(3) [OF c] by (simp add: w')
    fix a assume "a \<in> set (map fst (archetypes w'))"
    then have a: "a \<in> set (map fst (archetypes w))" by (simp add: keys w')
    show "listeners w' a \<noteq> None" using consistentD(4) [OF c a] by (simp add: w')
    show "names_of w' a \<noteq> []" using consistentD(5) [OF c a] by (simp add: n')
    have other: "entityIsArchetype (objects w' x) (names_of w a)
                   = entityIsArchetype (objects w x) (names_of w a)" if "x \<noteq> e" for x
      using that by (simp add: w')
    have "set (index_of w' a) = set (index_of w a) - {e}"
      using consistentD(6) [OF c a] by (simp add: i' idx' [OF a])
    moreover have "set (entities w') = set (entities w) - {e}"
      using consistentD(3) [OF c] by (simp add: w')
    moreover have "distinct (index_of w' a)"
      using consistentD(6) [OF c a] by (simp add: i' idx' [OF a])
    ultimately show "distinct (index_of w' a) \<and>
           set (index_of w' a) = {x \<in> set (entities w'). entityIsArchetype (objects w' x) (names_of w' a)}"
      using consistentD(7) [OF c a] other by (auto simp: n')
  qed
  have fired': "fired_iff_changed w w'"
    using fired_iff_changed_cong [of w w w' w1] fired by (simp add: w')
  have props: "map_of (objects w' e) = (map_of (objects w e))(''id'' := None)"
    by (simp add: w'(7) delete_property_def delete_conv')
  have others: "\<forall>entity. entity \<noteq> e \<longrightarrow> objects w' entity = objects w entity"
    by (simp add: w'(7))
  have "updated (CmdRemoveEntity e) w w'"
    unfolding updated_def
    using cons fired' props others by (simp add: w'(2) w'(5) w'(6) w'(8))
  with ex show ?thesis by blast
qed

lemma addComponent_updated:
  assumes c: "consistent w" and cl: "clean (CmdAddComponent e n d) w"
  shows "\<exists>w'. execute (CmdAddComponent e n d) w = Inr w' \<and> updated (CmdAddComponent e n d) w w'"
proof -
  from cl have old: "e \<in> set (entities w)" and d: "d \<noteq> JUndefined" by simp_all
  define v where "v = update_object e (assign n d) w"
  have v: "archetypes v = archetypes w" "listeners v = listeners w" "notified v = notified w"
    "arrays v = arrays w" "queue v = queue w" "entities v = entities w"
    "objects v = (objects w)(e := assign n d (objects w e))"
    "nextId v = nextId w"
    by (simp_all add: v_def update_object_def)
  have n: "names_of v a = names_of w a" for a by (rule names_of_cong) (rule v)
  have i: "index_of v a = index_of w a" for a by (rule index_of_cong) (rule v)
  have wf: "well_formed v" using consistentD(1) [OF c] by (simp add: well_formed_def v)
  from new_components_loop [OF wf, of e "[n]"]
  obtain w' evs where run: "indexEntityWithNewComponents e [n] v = Inr w'"
    and eq: "w' = v\<lparr> archetypes := archetypes w', notified := notified v @ evs \<rparr>"
    and keys: "map fst (archetypes w') = map fst (archetypes v)"
    and idx: "\<And>a. index_of w' a =
             (if a \<in> set (map fst (archetypes v)) \<and>
                 list_ex (\<lambda>c. c \<in> set [n]) (names_of v a) \<and>
                 entityIsArchetype (objects v e) (names_of v a) \<and> e \<notin> set (index_of v a)
              then index_of v a @ [e] else index_of v a)"
    and evs: "map fst evs = filter (\<lambda>a. list_ex (\<lambda>c. c \<in> set [n]) (names_of v a) \<and>
                 entityIsArchetype (objects v e) (names_of v a) \<and> e \<notin> set (index_of v a))
                          (map fst (archetypes v))"
    and reg: "list_all (\<lambda>(a, r). listeners v a = Some r) evs"
    by blast
  note f = frame_facts [OF eq]
  have n': "names_of w' a = names_of w a" for a
    using names_of_cong [OF f(2), of a] n by simp
  have ex: "execute (CmdAddComponent e n d) w = Inr w'"
    using run by (simp add: immediately_addComponent_def v_def)
  have fired: "fired_iff_changed v w'"
  proof (rule fired_iff_changedI [OF _ keys f(7) evs reg])
    show "distinct (map fst (archetypes v))" using consistentD(2) [OF c] by (simp add: v)
    fix a assume "a \<in> set (map fst (archetypes v))"
    then show "(list_ex (\<lambda>c. c \<in> set [n]) (names_of v a) \<and>
           entityIsArchetype (objects v e) (names_of v a) \<and> e \<notin> set (index_of v a))
          = (index_of w' a \<noteq> index_of v a)"
      by (simp add: idx [of a])
  qed
  have cons: "consistent w'"
  proof (rule consistentI)
    show "distinct (map fst (archetypes w'))" using consistentD(2) [OF c] by (simp add: keys v)
    show "distinct (entities w')" using consistentD(3) [OF c] by (simp add: f v)
    fix a assume "a \<in> set (map fst (archetypes w'))"
    then have a: "a \<in> set (map fst (archetypes w))" by (simp add: keys v)
    show "listeners w' a \<noteq> None" using consistentD(4) [OF c a] by (simp add: f v)
    show "names_of w' a \<noteq> []" using consistentD(5) [OF c a] by (simp add: n')
    have other: "entityIsArchetype (objects v x) (names_of w a)
                   = entityIsArchetype (objects w x) (names_of w a)" if "x \<noteq> e" for x
      using that by (simp add: v)
    have sat_v: "entityIsArchetype (objects v e) (names_of w a)
                   = (\<forall>m \<in> set (names_of w a). m = n \<or> property (objects w e) m \<noteq> JUndefined)"
      using d by (auto simp: v(7) entityIsArchetype_def list_all_iff property_assign_iff)
    have sat_w: "entityIsArchetype (objects w e) (names_of w a)
                   = (\<forall>m \<in> set (names_of w a). property (objects w e) m \<noteq> JUndefined)"
      by (simp add: entityIsArchetype_def list_all_iff)
    have member: "e \<in> set (index_of w a) = entityIsArchetype (objects w e) (names_of w a)"
      using consistentD(7) [OF c a] old by simp
    have idx': "index_of w' a =
        (if entityIsArchetype (objects v e) (names_of w a) \<and> e \<notin> set (index_of w a)
         then index_of w a @ [e] else index_of w a)"
      using idx [of a] a member sat_v sat_w by (auto simp: n i v(1) list_ex_iff)
    show "distinct (index_of w' a) \<and>
           set (index_of w' a) = {x \<in> set (entities w'). entityIsArchetype (objects w' x) (names_of w' a)}"
    proof (cases "entityIsArchetype (objects v e) (names_of w a) \<and> e \<notin> set (index_of w a)")
      case True
      have "entityIsArchetype (objects v x) (names_of w a)
              = (x = e \<or> entityIsArchetype (objects w x) (names_of w a))" for x
        using other [of x] True by (cases "x = e") simp_all
      with True show ?thesis
        using consistentD(6) [OF c a] consistentD(7) [OF c a] old
        by (auto simp: idx' n' f(1) f(3) v(6))
    next
      case False
      then have same: "entityIsArchetype (objects v e) (names_of w a)
                         = entityIsArchetype (objects w e) (names_of w a)"
        using member sat_v sat_w by auto
      have "entityIsArchetype (objects v x) (names_of w a)
              = entityIsArchetype (objects w x) (names_of w a)" for x
        using other [of x] same by (cases "x = e") simp_all
      with False show ?thesis
        using consistentD(6) [OF c a] consistentD(7) [OF c a]
        by (simp add: idx' n' f(1) f(3) v(6))
    qed
  qed
  have fired': "fired_iff_changed w w'"
    using fired_iff_changed_cong [of v w w' w', OF v(1) v(3) v(2)] fired by simp
  have props: "map_of (objects w' e) = (map_of (objects w e))(n \<mapsto> d)"
    by (simp add: f(1) v(7) assign_def update_conv')
  have others: "\<forall>entity. entity \<noteq> e \<longrightarrow> objects w' entity = objects w entity"
    by (simp add: f(1) v(7))
  have "updated (CmdAddComponent e n d) w w'"
    unfolding updated_def
    using cons fired' props others by (simp add: f(3) f(4) f(5) f(6) v(2) v(5) v(6) v(8))
  with ex show ?thesis by blast
qed

lemma removeComponent_updated:
  assumes c: "consistent w" and cl: "clean (CmdRemoveComponent e ns) w"
  shows "\<exists>w'. execute (CmdRemoveComponent e ns) w = Inr w' \<and> updated (CmdRemoveComponent e ns) w w'"
proof -
  define v where "v = update_object e (\<lambda>entity. fold delete_property ns entity) w"
  have v: "archetypes v = archetypes w" "listeners v = listeners w" "notified v = notified w"
    "arrays v = arrays w" "queue v = queue w" "entities v = entities w"
    "objects v = (objects w)(e := fold delete_property ns (objects w e))"
    "nextId v = nextId w"
    by (simp_all add: v_def update_object_def)
  have n: "names_of v a = names_of w a" for a by (rule names_of_cong) (rule v)
  have i: "index_of v a = index_of w a" for a by (rule index_of_cong) (rule v)
  have wf: "well_formed v" using consistentD(1) [OF c] by (simp add: well_formed_def v)
  from removed_components_loop [OF wf, of e ns]
  obtain w' evs where run: "indexEntityWithRemovedComponents e ns v = Inr w'"
    and eq: "w' = v\<lparr> archetypes := archetypes w', notified := notified v @ evs \<rparr>"
    and keys: "map fst (archetypes w') = map fst (archetypes v)"
    and idx: "\<And>a. index_of w' a =
             (if a \<in> set (map fst (archetypes v)) \<and>
                 list_ex (\<lambda>c. c \<in> set ns) (names_of v a) \<and>
                 \<not> entityIsArchetype (objects v e) (names_of v a)
              then Array_splice (index_of v a) (indexOf (index_of v a) e) 1 else index_of v a)"
    and evs: "map fst evs = filter (\<lambda>a. list_ex (\<lambda>c. c \<in> set ns) (names_of v a) \<and>
                 \<not> entityIsArchetype (objects v e) (names_of v a))
                          (map fst (archetypes v))"
    and reg: "list_all (\<lambda>(a, r). listeners v a = Some r) evs"
    by blast
  note f = frame_facts [OF eq]
  have n': "names_of w' a = names_of w a" for a
    using names_of_cong [OF f(2), of a] n by simp
  have ex: "execute (CmdRemoveComponent e ns) w = Inr w'"
    using run by (simp add: immediately_removeComponent_def v_def)
  have held: "e \<in> set (index_of w a)"
    if a: "a \<in> set (map fst (archetypes w))"
      and m: "list_ex (\<lambda>c. c \<in> set ns) (names_of w a)" for a
  proof -
    from a obtain ix where ix: "(a, ix) \<in> set (archetypes w)" by auto
    from map_of_is_SomeI [OF consistentD(2) [OF c] ix] have "index_of w a = ix"
      by (simp add: index_of_def)
    with cl ix m show ?thesis by (auto simp: list_all_iff)
  qed
  have unsat: "\<not> entityIsArchetype (objects v e) (names_of w a)"
    if "list_ex (\<lambda>c. c \<in> set ns) (names_of w a)" for a
    using that by (auto simp: v(7) entityIsArchetype_def list_all_iff list_ex_iff property_fold_delete)
  have same: "entityIsArchetype (objects v e) (names_of w a)
                = entityIsArchetype (objects w e) (names_of w a)"
    if "\<not> list_ex (\<lambda>c. c \<in> set ns) (names_of w a)" for a
    using that by (auto simp: v(7) entityIsArchetype_def list_all_iff list_ex_iff property_fold_delete)
  have idx': "index_of w' a =
      (if list_ex (\<lambda>c. c \<in> set ns) (names_of w a) then remove1 e (index_of w a) else index_of w a)"
    if a: "a \<in> set (map fst (archetypes w))" for a
    using idx [of a] a unsat [of a] splice_indexOf [OF held [OF a]]
    by (auto simp: n i v(1))
  have fired: "fired_iff_changed v w'"
  proof (rule fired_iff_changedI [OF _ keys f(7) evs reg])
    show "distinct (map fst (archetypes v))" using consistentD(2) [OF c] by (simp add: v)
    fix a assume "a \<in> set (map fst (archetypes v))"
    then have a: "a \<in> set (map fst (archetypes w))" by (simp add: v)
    show "(list_ex (\<lambda>c. c \<in> set ns) (names_of v a) \<and>
           \<not> entityIsArchetype (objects v e) (names_of v a))
          = (index_of w' a \<noteq> index_of v a)"
      using unsat [of a] remove1_changes [OF held [OF a]]
      by (auto simp: idx' [OF a] n i)
  qed
  have cons: "consistent w'"
  proof (rule consistentI)
    show "distinct (map fst (archetypes w'))" using consistentD(2) [OF c] by (simp add: keys v)
    show "distinct (entities w')" using consistentD(3) [OF c] by (simp add: f v)
    fix a assume "a \<in> set (map fst (archetypes w'))"
    then have a: "a \<in> set (map fst (archetypes w))" by (simp add: keys v)
    show "listeners w' a \<noteq> None" using consistentD(4) [OF c a] by (simp add: f v)
    show "names_of w' a \<noteq> []" using consistentD(5) [OF c a] by (simp add: n')
    have other: "entityIsArchetype (objects v x) (names_of w a)
                   = entityIsArchetype (objects w x) (names_of w a)" if "x \<noteq> e" for x
      using that by (simp add: v)
    show "distinct (index_of w' a) \<and>
           set (index_of w' a) = {x \<in> set (entities w'). entityIsArchetype (objects w' x) (names_of w' a)}"
    proof (cases "list_ex (\<lambda>c. c \<in> set ns) (names_of w a)")
      case True
      have "set (index_of w' a) = set (index_of w a) - {e}"
        using consistentD(6) [OF c a] True by (simp add: idx' [OF a])
      moreover have "distinct (index_of w' a)"
        using consistentD(6) [OF c a] True by (simp add: idx' [OF a])
      moreover have "entityIsArchetype (objects v x) (names_of w a)
              = (x \<noteq> e \<and> entityIsArchetype (objects w x) (names_of w a))" for x
        using other [of x] unsat [OF True] by (cases "x = e") simp_all
      ultimately show ?thesis
        using consistentD(7) [OF c a]
        by (auto simp: n' f(1) f(3) v(6))
    next
      case False
      have "entityIsArchetype (objects v x) (names_of w a)
              = entityIsArchetype (objects w x) (names_of w a)" for x
        using other [of x] same [OF False] by (cases "x = e") simp_all
      with False show ?thesis
        using consistentD(6) [OF c a] consistentD(7) [OF c a]
        by (simp add: idx' [OF a] n' f(1) f(3) v(6))
    qed
  qed
  have fired': "fired_iff_changed w w'"
    using fired_iff_changed_cong [of v w w' w', OF v(1) v(3) v(2)] fired by simp
  have props: "map_of (objects w' e)
                 = (\<lambda>name. if name \<in> set ns then None else map_of (objects w e) name)"
    by (simp add: f(1) v(7) map_of_fold_delete)
  have others: "\<forall>entity. entity \<noteq> e \<longrightarrow> objects w' entity = objects w entity"
    by (simp add: f(1) v(7))
  have "updated (CmdRemoveComponent e ns) w w'"
    unfolding updated_def
    using cons fired' props others by (simp add: f(3) f(4) f(5) f(6) v(2) v(5) v(6) v(8))
  with ex show ?thesis by blast
qed


lemma consistent_queue: "consistent (w\<lparr> queue := q \<rparr>) = consistent w"
  by (simp add: consistent_def well_formed_def exact_membership_def names_of_def)

lemma execute_updated:
  "consistent w \<Longrightarrow> clean c w \<Longrightarrow> \<exists>w'. execute c w = Inr w' \<and> updated c w w'"
proof (cases c)
  case (CmdAddEntity e)
  assume "consistent w" "clean c w"
  with CmdAddEntity show ?thesis using addEntity_updated [of w e] by simp
next
  case (CmdRemoveEntity e)
  assume "consistent w" "clean c w"
  with CmdRemoveEntity show ?thesis using removeEntity_updated [of w e] by simp
next
  case (CmdAddComponent e n d)
  assume "consistent w" "clean c w"
  with CmdAddComponent show ?thesis using addComponent_updated [of w e n d] by simp
next
  case (CmdRemoveComponent e ns)
  assume "consistent w" "clean c w"
  with CmdRemoveComponent show ?thesis using removeComponent_updated [of w e ns] by simp
qed

lemma updates_all_holds:
  "consistent w \<Longrightarrow> clean_all cs w \<Longrightarrow>
     updates_all cs w \<and> (\<exists>w'. execute_all cs w = Inr w' \<and> consistent w')"
proof (induction cs arbitrary: w)
  case Nil
  then show ?case by simp
next
  case (Cons c cs)
  from Cons.prems(2) have cl: "clean c w" by simp
  from execute_updated [OF Cons.prems(1) cl]
  obtain w1 where 1: "execute c w = Inr w1" and 2: "updated c w w1" by blast
  from 2 have c1: "consistent w1" by (simp add: updated_def)
  from Cons.prems(2) 1 have "clean_all cs w1" by simp
  from Cons.IH [OF c1 this] 1 2 show ?case by simp
qed

lemma perform_all_immediately: "perform_all (map Immediately cs) w = execute_all cs w"
  by (induction cs arbitrary: w) (simp_all split: sum.splits)

section \<open>Keys and stores of the predicates\<close>

lemma fold_Set_values:
  "set (fold (\<lambda>x s. if x \<in> set s then s else s @ [x]) xs acc) = set acc \<union> set xs \<and>
   (distinct acc \<longrightarrow> distinct (fold (\<lambda>x s. if x \<in> set s then s else s @ [x]) xs acc)) \<and>
   (sorted (acc @ xs) \<longrightarrow> sorted (fold (\<lambda>x s. if x \<in> set s then s else s @ [x]) xs acc))"
proof (induction xs arbitrary: acc)
  case Nil
  show ?case by simp
next
  case (Cons x xs)
  show ?case
  proof (cases "x \<in> set acc")
    case True
    have "sorted (acc @ x # xs) \<Longrightarrow> sorted (acc @ xs)"
      by (auto simp: sorted_append)
    with Cons.IH [of acc] True show ?thesis by auto
  next
    case False
    with Cons.IH [of "acc @ [x]"] show ?thesis by auto
  qed
qed

lemma set_Set_values: "set (Set_values xs) = set (xs :: 'a::linorder list)"
  using fold_Set_values [of xs "[]"] by (simp add: Set_values_def)

lemma distinct_Set_values: "distinct (Set_values (xs :: 'a::linorder list))"
  using fold_Set_values [of xs "[]"] by (simp add: Set_values_def)

lemma sorted_Set_values: "sorted xs \<Longrightarrow> sorted (Set_values xs)"
  using fold_Set_values [of xs "[]"] by (simp add: Set_values_def)

lemma Set_values_sorted: "sorted xs \<Longrightarrow> Set_values xs = remdups xs"
  by (rule sorted_distinct_set_unique)
     (simp_all add: sorted_Set_values distinct_Set_values set_Set_values sorted_remdups)

lemma key_canonical: "key names = JSON_stringify (canonical names)"
  by (simp add: key_def canonical_def Set_values_sorted sorted_filter [where f = "\<lambda>x. x", simplified])


lemma of_char_hex_digit: "n < 16 \<Longrightarrow> of_char (hex_digit n) = (if n < 10 then 48 + n else 87 + n)"
  by (simp add: hex_digit_def)

lemma hex_digit_inj:
  assumes "n < 16" "m < 16" "hex_digit n = hex_digit m"
  shows "n = m"
proof -
  from assms(3) have "(of_char (hex_digit n) :: nat) = of_char (hex_digit m)" by simp
  with assms(1,2) show ?thesis
    by (simp add: of_char_hex_digit split: if_splits)
qed

lemma control_char_eq:
  assumes "of_char c < (32::nat)" "of_char d < (32::nat)"
    and "hex_digit (of_char c div 16) = hex_digit (of_char d div 16)"
    and "hex_digit (of_char c mod 16) = hex_digit (of_char d mod 16)"
  shows "c = d"
proof -
  have "(of_char c :: nat) div 16 = of_char d div 16"
    using assms(1,2) by (intro hex_digit_inj [OF _ _ assms(3)]) simp_all
  moreover have "(of_char c :: nat) mod 16 = of_char d mod 16"
    by (intro hex_digit_inj [OF _ _ assms(4)]) simp_all
  ultimately have "(of_char c :: nat) = of_char d"
    by (metis div_mult_mod_eq)
  then show ?thesis by simp
qed

lemma quote_char_prefix:
  "quote_char c @ X = quote_char d @ Y \<Longrightarrow> c = d \<and> X = Y"
  by (auto simp: quote_char_def split: if_splits dest: control_char_eq)

lemma quote_char_no_quote: "quote_char c @ X \<noteq> CHR 0x22 # Y"
  by (auto simp: quote_char_def split: if_splits)


lemma quoted_body_inj:
  "concat (map quote_char s) @ CHR 0x22 # X = concat (map quote_char t) @ CHR 0x22 # Y
     \<Longrightarrow> s = t \<and> X = Y"
proof (induction s arbitrary: t)
  case Nil
  then show ?case
    by (cases t) (simp_all add: quote_char_no_quote [symmetric])
next
  case (Cons c s)
  show ?case
  proof (cases t)
    case Nil
    with Cons.prems show ?thesis by (simp add: quote_char_no_quote)
  next
    case (Cons d t')
    with Cons.prems
    have "quote_char c @ (concat (map quote_char s) @ CHR 0x22 # X)
          = quote_char d @ (concat (map quote_char t') @ CHR 0x22 # Y)" by simp
    from quote_char_prefix [OF this] Cons.IH [of t'] Cons show ?thesis by simp
  qed
qed

lemma QuoteJSONString_prefix:
  "QuoteJSONString s @ X = QuoteJSONString t @ Y \<Longrightarrow> s = t \<and> X = Y"
  using quoted_body_inj [of s X t Y] by (simp add: QuoteJSONString_def)

lemma join_Cons: "join (x # xs) = x @ (if xs = [] then [] else CHR '','' # join xs)"
  by (cases xs) simp_all

lemma joined_inj:
  "join (map QuoteJSONString xs) @ [CHR '']''] = join (map QuoteJSONString ys) @ [CHR '']'']
     \<Longrightarrow> xs = ys"
proof (induction xs arbitrary: ys)
  case Nil
  then show ?case
    by (cases ys) (simp_all add: join_Cons QuoteJSONString_def)
next
  case (Cons x xs)
  show ?case
  proof (cases ys)
    case Nil
    with Cons.prems show ?thesis by (simp add: join_Cons QuoteJSONString_def)
  next
    case (Cons y ys')
    let ?T = "\<lambda>zs. (if zs = [] then [] else CHR '','' # join (map QuoteJSONString zs)) @ [CHR '']'']"
    from Cons.prems Cons have "QuoteJSONString x @ ?T xs = QuoteJSONString y @ ?T ys'"
      by (simp add: join_Cons)
    from QuoteJSONString_prefix [OF this] have xy: "x = y" and T: "?T xs = ?T ys'" by simp_all
    have "join (map QuoteJSONString xs) @ [CHR '']''] = join (map QuoteJSONString ys') @ [CHR '']'']"
      using T by (cases "xs = []"; cases "ys' = []") simp_all
    from Cons.IH [OF this] xy Cons show ?thesis by simp
  qed
qed

lemma JSON_stringify_inj: "JSON_stringify xs = JSON_stringify ys \<Longrightarrow> xs = ys"
  by (rule joined_inj) (simp add: JSON_stringify_def)

lemma key_eq_iff: "key xs = key ys \<longleftrightarrow> canonical xs = canonical ys"
  by (auto simp: key_canonical dest: JSON_stringify_inj)

lemma set_canonical: "set (canonical xs) = set xs - {[]}"
  by (auto simp: canonical_def)


lemmas predicate_defs = not_p_def all_def any_def none_def memoize_def new_function_def

lemma construct_stores:
  "construct c m = Inr (f, m') \<Longrightarrow> consulted c m' = Some f"
  by (cases c) (auto simp: predicate_defs Let_def split: option.splits)

lemma construct_keeps_entries:
  "construct c m = Inr (f, m') \<Longrightarrow> consulted d m = Some g \<Longrightarrow> consulted d m' = Some g"
  by (cases c; cases d) (auto simp: predicate_defs Let_def split: option.splits)

lemma construct_keeps_functions:
  "construct c m = Inr (f, m') \<Longrightarrow> function_objects m a \<noteq> None \<Longrightarrow> function_objects m' a \<noteq> None"
  by (cases c) (auto simp: predicate_defs Let_def split: option.splits)

lemma construct_all_keeps:
  "construct_all cs m = Inr m' \<Longrightarrow>
     (consulted d m = Some g \<longrightarrow> consulted d m' = Some g) \<and>
     (function_objects m a \<noteq> None \<longrightarrow> function_objects m' a \<noteq> None)"
proof (induction cs arbitrary: m)
  case Nil
  then show ?case by simp
next
  case (Cons c cs)
  from Cons.prems obtain f m1 where 1: "construct c m = Inr (f, m1)" and 2: "construct_all cs m1 = Inr m'"
    by (auto split: sum.splits)
  from Cons.IH [OF 2] construct_keeps_entries [OF 1, of d g] construct_keeps_functions [OF 1, of a]
  show ?case by blast
qed

lemma construct_cached:
  assumes "consulted c m = Some f" "\<And>p. c = CallNot p \<Longrightarrow> function_objects m p \<noteq> None"
  shows "\<exists>m'. construct c m = Inr (f, m')"
  using assms by (cases c) (auto simp: predicate_defs Let_def split: option.splits)

lemma equivalent_consulted: "equivalent c d \<Longrightarrow> consulted c m = consulted d m"
  by (cases c; cases d) (simp_all add: key_canonical)

lemma equivalent_Not: "equivalent c (CallNot p) \<Longrightarrow> c = CallNot p"
  by (cases c) simp_all

lemma stores_sound: "sound_stores (stores fs) \<and> sound_names (stores fs)"
  by (simp add: stores_def sound_stores_def sound_names_def)

lemma same_names:
  assumes "key xs = key ys" "[] \<notin> set xs" "[] \<notin> set ys"
  shows "set xs = set ys"
proof -
  from assms(1) have "set (canonical xs) = set (canonical ys)" by (simp add: key_eq_iff)
  with assms(2,3) show ?thesis by (simp add: set_canonical)
qed

lemma new_function_sound:
  assumes "sound_stores m"
  shows "sound_stores (snd (new_function body m))"
    and "function_objects m a = Some b \<Longrightarrow> function_objects (snd (new_function body m)) a = Some b"
    and "function_objects (snd (new_function body m)) (fst (new_function body m)) = Some body"
    and "sound_names m \<Longrightarrow> sound_names (snd (new_function body m))"
proof -
  have fresh: "function_objects m a \<noteq> None \<Longrightarrow> a \<noteq> nextFunction m" for a
    using assms unfolding sound_stores_def by (metis less_irrefl)
  show keep: "function_objects m a = Some b \<Longrightarrow> function_objects (snd (new_function body m)) a = Some b"
    for a b
    using fresh [of a] by (simp add: new_function_def)
  show "function_objects (snd (new_function body m)) (fst (new_function body m)) = Some body"
    by (simp add: new_function_def)
  have st: "stores_not (snd (new_function body m)) = stores_not m"
    "stores_all (snd (new_function body m)) = stores_all m"
    "stores_any (snd (new_function body m)) = stores_any m"
    "stores_none (snd (new_function body m)) = stores_none m"
    by (simp_all add: new_function_def)
  have "\<forall>a. function_objects (snd (new_function body m)) a \<noteq> None
          \<longrightarrow> a < nextFunction (snd (new_function body m))"
    using assms by (auto simp: new_function_def sound_stores_def less_Suc_eq)
  moreover have "\<forall>p f. stores_not (snd (new_function body m)) p = Some f \<longrightarrow>
         (\<exists>b. function_objects (snd (new_function body m)) p = Some b \<and>
              function_objects (snd (new_function body m)) f = Some (\<lambda>entity. \<not> b entity))"
    using assms keep unfolding st sound_stores_def by blast
  ultimately show "sound_stores (snd (new_function body m))"
    unfolding sound_stores_def by blast
  show "sound_names (snd (new_function body m))" if "sound_names m"
    using that keep unfolding st sound_names_def by blast
qed


lemma sound_stores_cong:
  "function_objects m' = function_objects m \<Longrightarrow> nextFunction m' = nextFunction m \<Longrightarrow>
   stores_not m' = stores_not m \<Longrightarrow> sound_stores m' = sound_stores m"
  by (simp add: sound_stores_def)

lemma all_unfold:
  "all m names =
     (case stores_all m (key names) of
        Some f \<Rightarrow>
          (f, snd (new_function
                (\<lambda>entity. list_all (\<lambda>c. property entity c \<noteq> JUndefined) (sort names)) m))
      | None \<Rightarrow>
          (nextFunction m,
           (snd (new_function
                (\<lambda>entity. list_all (\<lambda>c. property entity c \<noteq> JUndefined) (sort names)) m))
             \<lparr> stores_all := (stores_all m)(key names \<mapsto> nextFunction m) \<rparr>))"
  by (simp add: all_def memoize_def new_function_def Let_def split: option.splits)

lemma all_sound_stores:
  assumes "sound_stores m"
  shows "sound_stores (snd (all m names))"
proof -
  let ?m1 = "snd (new_function
                (\<lambda>entity. list_all (\<lambda>c. property entity c \<noteq> JUndefined) (sort names)) m)"
  have 1: "sound_stores ?m1" by (rule new_function_sound(1) [OF assms])
  show ?thesis
  proof (cases "stores_all m (key names)")
    case None
    have "sound_stores (?m1\<lparr> stores_all := (stores_all m)(key names \<mapsto> nextFunction m) \<rparr>)
          = sound_stores ?m1"
      by (rule sound_stores_cong) simp_all
    with 1 None show ?thesis by (simp add: all_unfold)
  next
    case (Some f)
    with 1 show ?thesis by (simp add: all_unfold)
  qed
qed

lemma all_decides:
  assumes "sound_stores m" "sound_names m" "[] \<notin> set names"
  shows "sound_names (snd (all m names))"
    and "call_function (snd (all m names)) (fst (all m names)) entity
           = Inr (list_all (\<lambda>c. property entity c \<noteq> JUndefined) names)"
proof -
  let ?body = "\<lambda>xs entity. list_all (\<lambda>c. property entity c \<noteq> JUndefined) (sort xs)"
  let ?m1 = "snd (new_function (?body names) m)"
  have n1: "sound_names ?m1" by (rule new_function_sound(4) [OF assms(1,2)])
  have keep: "function_objects m a = Some b \<Longrightarrow> function_objects ?m1 a = Some b" for a b
    by (rule new_function_sound(2) [OF assms(1)])
  have new: "function_objects ?m1 (nextFunction m) = Some (?body names)"
    using new_function_sound(3) [OF assms(1), of "?body names"] by (simp add: new_function_def)
  have st: "stores_all ?m1 = stores_all m" "stores_any ?m1 = stores_any m"
    "stores_none ?m1 = stores_none m"
    by (simp_all add: new_function_def)
  have body: "?body xs entity = list_all (\<lambda>c. property entity c \<noteq> JUndefined) names"
    if "set xs = set names" for xs
    using that by (simp add: list_all_iff)
  show "sound_names (snd (all m names))"
  proof (cases "stores_all m (key names)")
    case (Some f)
    with n1 show ?thesis by (simp add: all_unfold)
  next
    case None
    let ?m2 = "?m1\<lparr> stores_all := (stores_all m)(key names \<mapsto> nextFunction m) \<rparr>"
    have "\<exists>xs. [] \<notin> set xs \<and> key xs = k \<and> function_objects ?m2 f = Some (?body xs)"
      if "stores_all ?m2 k = Some f" for k f
    proof (cases "k = key names")
      case True
      with that have "f = nextFunction m" by simp
      with True assms(3) new show ?thesis by auto
    next
      case False
      with that have "stores_all ?m1 k = Some f" by (simp add: st)
      with n1 show ?thesis unfolding sound_names_def by simp
    qed
    moreover have "stores_any ?m2 = stores_any ?m1" "stores_none ?m2 = stores_none ?m1"
      "function_objects ?m2 = function_objects ?m1" by simp_all
    ultimately have "sound_names ?m2"
      using n1 unfolding sound_names_def by simp
    with None show ?thesis by (simp add: all_unfold)
  qed
  show "call_function (snd (all m names)) (fst (all m names)) entity
           = Inr (list_all (\<lambda>c. property entity c \<noteq> JUndefined) names)"
  proof (cases "stores_all m (key names)")
    case (Some f)
    with assms(2) obtain xs where xs: "[] \<notin> set xs" "key xs = key names"
      and f: "function_objects m f = Some (?body xs)"
      unfolding sound_names_def by blast
    from same_names [OF xs(2) xs(1) assms(3)] have "set xs = set names" .
    with keep [OF f] Some show ?thesis
      by (simp add: all_unfold call_function_def body)
  next
    case None
    with new show ?thesis
      by (simp add: all_unfold call_function_def body)
  qed
qed


lemma any_unfold:
  "any m names =
     (case stores_any m (key names) of
        Some f \<Rightarrow>
          (f, snd (new_function
                (\<lambda>entity. list_ex (\<lambda>c. property entity c \<noteq> JUndefined) (sort names)) m))
      | None \<Rightarrow>
          (nextFunction m,
           (snd (new_function
                (\<lambda>entity. list_ex (\<lambda>c. property entity c \<noteq> JUndefined) (sort names)) m))
             \<lparr> stores_any := (stores_any m)(key names \<mapsto> nextFunction m) \<rparr>))"
  by (simp add: any_def memoize_def new_function_def Let_def split: option.splits)

lemma any_sound_stores:
  assumes "sound_stores m"
  shows "sound_stores (snd (any m names))"
proof -
  let ?m1 = "snd (new_function
                (\<lambda>entity. list_ex (\<lambda>c. property entity c \<noteq> JUndefined) (sort names)) m)"
  have 1: "sound_stores ?m1" by (rule new_function_sound(1) [OF assms])
  show ?thesis
  proof (cases "stores_any m (key names)")
    case None
    have "sound_stores (?m1\<lparr> stores_any := (stores_any m)(key names \<mapsto> nextFunction m) \<rparr>)
          = sound_stores ?m1"
      by (rule sound_stores_cong) simp_all
    with 1 None show ?thesis by (simp add: any_unfold)
  next
    case (Some f)
    with 1 show ?thesis by (simp add: any_unfold)
  qed
qed

lemma any_decides:
  assumes "sound_stores m" "sound_names m" "[] \<notin> set names"
  shows "sound_names (snd (any m names))"
    and "call_function (snd (any m names)) (fst (any m names)) entity
           = Inr (list_ex (\<lambda>c. property entity c \<noteq> JUndefined) names)"
proof -
  let ?body = "\<lambda>xs entity. list_ex (\<lambda>c. property entity c \<noteq> JUndefined) (sort xs)"
  let ?m1 = "snd (new_function (?body names) m)"
  have n1: "sound_names ?m1" by (rule new_function_sound(4) [OF assms(1,2)])
  have keep: "function_objects m a = Some b \<Longrightarrow> function_objects ?m1 a = Some b" for a b
    by (rule new_function_sound(2) [OF assms(1)])
  have new: "function_objects ?m1 (nextFunction m) = Some (?body names)"
    using new_function_sound(3) [OF assms(1), of "?body names"] by (simp add: new_function_def)
  have st: "stores_any ?m1 = stores_any m" "stores_all ?m1 = stores_all m"
    "stores_none ?m1 = stores_none m"
    by (simp_all add: new_function_def)
  have body: "?body xs entity = list_ex (\<lambda>c. property entity c \<noteq> JUndefined) names"
    if "set xs = set names" for xs
    using that by (simp add: list_ex_iff)
  show "sound_names (snd (any m names))"
  proof (cases "stores_any m (key names)")
    case (Some f)
    with n1 show ?thesis by (simp add: any_unfold)
  next
    case None
    let ?m2 = "?m1\<lparr> stores_any := (stores_any m)(key names \<mapsto> nextFunction m) \<rparr>"
    have "\<exists>xs. [] \<notin> set xs \<and> key xs = k \<and> function_objects ?m2 f = Some (?body xs)"
      if "stores_any ?m2 k = Some f" for k f
    proof (cases "k = key names")
      case True
      with that have "f = nextFunction m" by simp
      with True assms(3) new show ?thesis by auto
    next
      case False
      with that have "stores_any ?m1 k = Some f" by (simp add: st)
      with n1 show ?thesis unfolding sound_names_def by simp
    qed
    moreover have "stores_all ?m2 = stores_all ?m1" "stores_none ?m2 = stores_none ?m1"
      "function_objects ?m2 = function_objects ?m1" by simp_all
    ultimately have "sound_names ?m2"
      using n1 unfolding sound_names_def by simp
    with None show ?thesis by (simp add: any_unfold)
  qed
  show "call_function (snd (any m names)) (fst (any m names)) entity
           = Inr (list_ex (\<lambda>c. property entity c \<noteq> JUndefined) names)"
  proof (cases "stores_any m (key names)")
    case (Some f)
    with assms(2) obtain xs where xs: "[] \<notin> set xs" "key xs = key names"
      and f: "function_objects m f = Some (?body xs)"
      unfolding sound_names_def by blast
    from same_names [OF xs(2) xs(1) assms(3)] have "set xs = set names" .
    with keep [OF f] Some show ?thesis
      by (simp add: any_unfold call_function_def body)
  next
    case None
    with new show ?thesis
      by (simp add: any_unfold call_function_def body)
  qed
qed


lemma none_unfold:
  "none m names =
     (case stores_none m (key names) of
        Some f \<Rightarrow>
          (f, snd (new_function
                (\<lambda>entity. list_all (\<lambda>c. property entity c = JUndefined) (sort names)) m))
      | None \<Rightarrow>
          (nextFunction m,
           (snd (new_function
                (\<lambda>entity. list_all (\<lambda>c. property entity c = JUndefined) (sort names)) m))
             \<lparr> stores_none := (stores_none m)(key names \<mapsto> nextFunction m) \<rparr>))"
  by (simp add: none_def memoize_def new_function_def Let_def split: option.splits)

lemma none_sound_stores:
  assumes "sound_stores m"
  shows "sound_stores (snd (none m names))"
proof -
  let ?m1 = "snd (new_function
                (\<lambda>entity. list_all (\<lambda>c. property entity c = JUndefined) (sort names)) m)"
  have 1: "sound_stores ?m1" by (rule new_function_sound(1) [OF assms])
  show ?thesis
  proof (cases "stores_none m (key names)")
    case None
    have "sound_stores (?m1\<lparr> stores_none := (stores_none m)(key names \<mapsto> nextFunction m) \<rparr>)
          = sound_stores ?m1"
      by (rule sound_stores_cong) simp_all
    with 1 None show ?thesis by (simp add: none_unfold)
  next
    case (Some f)
    with 1 show ?thesis by (simp add: none_unfold)
  qed
qed

lemma none_decides:
  assumes "sound_stores m" "sound_names m" "[] \<notin> set names"
  shows "sound_names (snd (none m names))"
    and "call_function (snd (none m names)) (fst (none m names)) entity
           = Inr (list_all (\<lambda>c. property entity c = JUndefined) names)"
proof -
  let ?body = "\<lambda>xs entity. list_all (\<lambda>c. property entity c = JUndefined) (sort xs)"
  let ?m1 = "snd (new_function (?body names) m)"
  have n1: "sound_names ?m1" by (rule new_function_sound(4) [OF assms(1,2)])
  have keep: "function_objects m a = Some b \<Longrightarrow> function_objects ?m1 a = Some b" for a b
    by (rule new_function_sound(2) [OF assms(1)])
  have new: "function_objects ?m1 (nextFunction m) = Some (?body names)"
    using new_function_sound(3) [OF assms(1), of "?body names"] by (simp add: new_function_def)
  have st: "stores_none ?m1 = stores_none m" "stores_all ?m1 = stores_all m"
    "stores_any ?m1 = stores_any m"
    by (simp_all add: new_function_def)
  have body: "?body xs entity = list_all (\<lambda>c. property entity c = JUndefined) names"
    if "set xs = set names" for xs
    using that by (simp add: list_all_iff)
  show "sound_names (snd (none m names))"
  proof (cases "stores_none m (key names)")
    case (Some f)
    with n1 show ?thesis by (simp add: none_unfold)
  next
    case None
    let ?m2 = "?m1\<lparr> stores_none := (stores_none m)(key names \<mapsto> nextFunction m) \<rparr>"
    have "\<exists>xs. [] \<notin> set xs \<and> key xs = k \<and> function_objects ?m2 f = Some (?body xs)"
      if "stores_none ?m2 k = Some f" for k f
    proof (cases "k = key names")
      case True
      with that have "f = nextFunction m" by simp
      with True assms(3) new show ?thesis by auto
    next
      case False
      with that have "stores_none ?m1 k = Some f" by (simp add: st)
      with n1 show ?thesis unfolding sound_names_def by simp
    qed
    moreover have "stores_all ?m2 = stores_all ?m1" "stores_any ?m2 = stores_any ?m1"
      "function_objects ?m2 = function_objects ?m1" by simp_all
    ultimately have "sound_names ?m2"
      using n1 unfolding sound_names_def by simp
    with None show ?thesis by (simp add: none_unfold)
  qed
  show "call_function (snd (none m names)) (fst (none m names)) entity
           = Inr (list_all (\<lambda>c. property entity c = JUndefined) names)"
  proof (cases "stores_none m (key names)")
    case (Some f)
    with assms(2) obtain xs where xs: "[] \<notin> set xs" "key xs = key names"
      and f: "function_objects m f = Some (?body xs)"
      unfolding sound_names_def by blast
    from same_names [OF xs(2) xs(1) assms(3)] have "set xs = set names" .
    with keep [OF f] Some show ?thesis
      by (simp add: none_unfold call_function_def body)
  next
    case None
    with new show ?thesis
      by (simp add: none_unfold call_function_def body)
  qed
qed



lemma not_p_unfold:
  "not_p m p =
     (case function_objects m p of
        None \<Rightarrow> Inl TypeError
      | Some b \<Rightarrow>
          (case stores_not m p of
             Some f \<Rightarrow> Inr (f, snd (new_function (\<lambda>entity. \<not> b entity) m))
           | None \<Rightarrow>
               Inr (nextFunction m,
                    (snd (new_function (\<lambda>entity. \<not> b entity) m))
                      \<lparr> stores_not := (stores_not m)(p \<mapsto> nextFunction m) \<rparr>)))"
  by (simp add: not_p_def memoize_def new_function_def Let_def split: option.splits)

lemma sound_names_cong:
  "function_objects m' = function_objects m \<Longrightarrow> stores_all m' = stores_all m \<Longrightarrow>
   stores_any m' = stores_any m \<Longrightarrow> stores_none m' = stores_none m \<Longrightarrow>
   sound_names m' = sound_names m"
  by (simp add: sound_names_def)

lemma not_p_sound:
  assumes "sound_stores m" "not_p m p = Inr (f, m')"
  shows "sound_stores m'"
    and "sound_names m \<Longrightarrow> sound_names m'"
    and "function_objects m p = Some b \<Longrightarrow> function_objects m' f = Some (\<lambda>entity. \<not> b entity)"
proof -
  from assms(2) obtain b' where b': "function_objects m p = Some b'"
    by (auto simp: not_p_unfold split: option.splits)
  let ?m1 = "snd (new_function (\<lambda>entity. \<not> b' entity) m)"
  let ?m2 = "?m1\<lparr> stores_not := (stores_not m)(p \<mapsto> nextFunction m) \<rparr>"
  have s1: "sound_stores ?m1" by (rule new_function_sound(1) [OF assms(1)])
  have keep: "function_objects m a = Some c \<Longrightarrow> function_objects ?m1 a = Some c" for a c
    by (rule new_function_sound(2) [OF assms(1)])
  have new: "function_objects ?m1 (nextFunction m) = Some (\<lambda>entity. \<not> b' entity)"
    using new_function_sound(3) [OF assms(1), of "\<lambda>entity. \<not> b' entity"]
    by (simp add: new_function_def)
  have st: "stores_not ?m1 = stores_not m" by (simp add: new_function_def)
  have s2: "sound_stores ?m2"
  proof -
    have "\<exists>b. function_objects ?m2 q = Some b \<and>
              function_objects ?m2 g = Some (\<lambda>entity. \<not> b entity)"
      if "stores_not ?m2 q = Some g" for q g
    proof (cases "q = p")
      case True
      with that have "g = nextFunction m" by simp
      with True keep [OF b'] new show ?thesis by simp
    next
      case False
      with that have "stores_not ?m1 q = Some g" by (simp add: st)
      with s1 show ?thesis unfolding sound_stores_def by simp
    qed
    moreover have "\<forall>a. function_objects ?m2 a \<noteq> None \<longrightarrow> a < nextFunction ?m2"
      using s1 unfolding sound_stores_def by simp
    ultimately show ?thesis unfolding sound_stores_def by blast
  qed
  have n2: "sound_names ?m2 = sound_names ?m1"
    by (rule sound_names_cong) simp_all
  show "sound_stores m'"
    using assms(2) s1 s2 b' by (auto simp: not_p_unfold split: option.splits)
  show "sound_names m'" if "sound_names m"
    using assms(2) new_function_sound(4) [OF assms(1) that, of "\<lambda>entity. \<not> b' entity"] n2 b'
    by (auto simp: not_p_unfold split: option.splits)
  show "function_objects m' f = Some (\<lambda>entity. \<not> b entity)" if "function_objects m p = Some b"
  proof (cases "stores_not m p")
    case None
    with assms(2) b' that new show ?thesis by (auto simp: not_p_unfold)
  next
    case (Some g)
    with assms(1) b' have "function_objects m g = Some (\<lambda>entity. \<not> b' entity)"
      unfolding sound_stores_def by fastforce
    from keep [OF this] Some assms(2) b' that show ?thesis by (auto simp: not_p_unfold)
  qed
qed

lemma construct_sound:
  assumes "sound_stores m" "construct c m = Inr (f, m')"
  shows "sound_stores m' \<and> (sound_names m \<and> no_empty_name c \<longrightarrow> sound_names m')"
proof (cases c)
  case (CallNot p)
  with assms not_p_sound(1,2) [of m p f m'] show ?thesis by auto
next
  case (CallAll names)
  with assms all_sound_stores [of m names] all_decides(1) [of m names] show ?thesis by auto
next
  case (CallAny names)
  with assms any_sound_stores [of m names] any_decides(1) [of m names] show ?thesis by auto
next
  case (CallNone names)
  with assms none_sound_stores [of m names] none_decides(1) [of m names] show ?thesis by auto
qed

lemma construct_all_sound:
  "sound_stores m \<Longrightarrow> construct_all cs m = Inr m' \<Longrightarrow>
     sound_stores m' \<and> (sound_names m \<and> list_all no_empty_name cs \<longrightarrow> sound_names m')"
proof (induction cs arbitrary: m)
  case Nil
  then show ?case by simp
next
  case (Cons c cs)
  from Cons.prems(2) obtain f m1 where 1: "construct c m = Inr (f, m1)"
    and 2: "construct_all cs m1 = Inr m'"
    by (auto split: sum.splits)
  from construct_sound [OF Cons.prems(1) 1] Cons.IH [OF _ 2] show ?case by auto
qed

lemmas key_defs = key_def JSON_stringify_def QuoteJSONString_def quote_char_def Set_values_def


section \<open>Membership of the indices\<close>

text \<open>
  Claim C1 (the source falls short of it). The claim: after every immediate mutation,
  every registered index holds exactly the entities of the master list that have a
  defined value for every component of its archetype, each once. In the source,
  \<^verbatim>\<open>indexEntityWithRemovedComponents\<close> splices at \<^verbatim>\<open>index.indexOf(entity, 0)\<close> without
  testing that the entity was found, and \<^verbatim>\<open>splice(-1, 1)\<close> removes the last element.
  With the archetype \<open>(a, b)\<close> registered and the entities \<open>1 = {a, b}\<close> and \<open>2 = {a}\<close>
  added, membership is exact; removing \<open>a\<close> from entity 2 then empties the index,
  although entity 1 is still in the master list with both components.
\<close>

theorem membership_not_exact_after_removeComponent:
  "(case perform_all [CreateArchetype [''a'', ''b''], Immediately (CmdAddEntity 1),
                      Immediately (CmdAddEntity 2)] (createWorld example_objects) of
      Inl _ \<Rightarrow> False
    | Inr w \<Rightarrow> exact_membership w \<and> entities w = [1, 2] \<and> archetypes w = [(0, [1])])
   \<and>
   (case perform_all [CreateArchetype [''a'', ''b''], Immediately (CmdAddEntity 1),
                      Immediately (CmdAddEntity 2), Immediately (CmdRemoveComponent 2 [''a''])]
           (createWorld example_objects) of
      Inl _ \<Rightarrow> False
    | Inr w \<Rightarrow> \<not> exact_membership w \<and> entities w = [1, 2] \<and> archetypes w = [(0, [])]
               \<and> names_of w 0 = [''a'', ''b'']
               \<and> entityIsArchetype (objects w 1) [''a'', ''b''])"
  by (simp add: ecs_defs Let_def)

text \<open>
  Claim C2 (the source falls short of it). The claim: the immediate
  \<^verbatim>\<open>removeComponent(e, "a")\<close> removes \<open>e\<close> from the indices that require \<open>a\<close> and held
  \<open>e\<close>, and removes no other entity from any index. In the world above the index of
  \<open>(a, b)\<close> is \<open>[1]\<close>; removing \<open>a\<close> from entity 2, which the index never held, removes
  entity 1 from it and invokes the listeners of the archetype (callback 5).
\<close>

theorem removeComponent_removes_another_entity:
  "(case perform_all [CreateArchetype [''a'', ''b''], Subscribe 0 5, Immediately (CmdAddEntity 1),
                      Immediately (CmdAddEntity 2)] (createWorld example_objects) of
      Inl _ \<Rightarrow> False
    | Inr w \<Rightarrow>
        index_of w 0 = [1] \<and>
        (case immediately_removeComponent w 2 [''a''] of
           Inl _ \<Rightarrow> False
         | Inr w' \<Rightarrow> index_of w' 0 = [] \<and> objects w' 1 = objects w 1
                     \<and> notified w' = notified w @ [(0, [5])]))"
  by (simp add: ecs_defs Let_def)

text \<open>
  Claim C5 (the source falls short of it). The claim: removing a component that an
  entity does not have, and the immediate removal of an entity that is not in the store,
  leave the master list and every index unchanged. In the world above, removing \<open>b\<close>
  from entity 2, which has no \<open>b\<close>, empties the index of \<open>(a, b)\<close>; and removing
  entity 3, which was never added, removes entity 2, the last of the master list
  (\<^verbatim>\<open>entities.splice(-1, 1)\<close>). Neither call throws. The third case of the claim
  holds: the query of an archetype without matching entities returns an empty list.
\<close>

theorem removing_what_is_absent_changes_the_store:
  "(case perform_all [CreateArchetype [''a'', ''b''], Immediately (CmdAddEntity 1),
                      Immediately (CmdAddEntity 2)] (createWorld example_objects) of
      Inl _ \<Rightarrow> False
    | Inr w \<Rightarrow>
        \<not> has_property ''b'' (objects w 2) \<and> index_of w 0 = [1] \<and>
        (case immediately_removeComponent w 2 [''b''] of
           Inl _ \<Rightarrow> False
         | Inr w' \<Rightarrow> index_of w' 0 = [] \<and> entities w' = entities w) \<and>
        3 \<notin> set (entities w) \<and> entities w = [1, 2] \<and>
        (case immediately_removeEntity w 3 of
           Inl _ \<Rightarrow> False
         | Inr w' \<Rightarrow> entities w' = [1] \<and> index_of w' 0 = [1]) \<and>
        fst (getWith w [''c'']) = Some [])"
  by (simp add: ecs_defs Let_def)

section \<open>Archetype identity\<close>

text \<open>
  Claim C3. In a world reached by any calls, two calls of \<^verbatim>\<open>createArchetype\<close> whose
  lists of names are equal as sets (lists that differ in their order or in repeated
  names), with any calls between them, return the same archetype object; when the
  archetype has an index at the later call, that call leaves the map of indices, the
  listener registries and the notifications as they were (no rebuild, no reset); and
  the archetype has an index then unless \<^verbatim>\<open>clear()\<close> was called in between.
\<close>

theorem createArchetype_same_object:
  assumes "perform_all before (createWorld objs) = Inr w"
    and "perform_all between (snd (createArchetype w names1)) = Inr w'"
    and "set names2 = set names1"
  shows "fst (createArchetype w' names2) = fst (createArchetype w names1) \<and>
         (map_of (archetypes w') (fst (createArchetype w names1)) \<noteq> None \<longrightarrow>
            archetypes (snd (createArchetype w' names2)) = archetypes w' \<and>
            listeners (snd (createArchetype w' names2)) = listeners w' \<and>
            notified (snd (createArchetype w' names2)) = notified w') \<and>
         (Clear \<notin> set between \<longrightarrow>
            map_of (archetypes w') (fst (createArchetype w names1)) \<noteq> None)"
proof -
  let ?a = "fst (createArchetype w names1)"
  let ?w1 = "snd (createArchetype w names1)"
  have wf1: "well_formed ?w1"
    using reachable_well_formed [OF assms(1)] by (rule createArchetype_well_formed)
  have s: "logical_key (sort names2) = logical_key (sort names1)"
    by (rule logical_key_set) (simp add: assms(3))
  from perform_all_ok [OF wf1 assms(2), of "logical_key (sort names1)" ?a ?a]
    createArchetype_caches [of w names1] createArchetype_registers [of w names1]
  have m: "memoizedArchetypes w' (logical_key (sort names1)) = Some ?a"
    and r: "Clear \<notin> set between \<Longrightarrow> map_of (archetypes w') ?a \<noteq> None"
    by simp_all
  have same: "fst (createArchetype w' names2) = ?a"
    using m s by (simp add: createArchetype_cached)
  have "archetypes (snd (createArchetype w' names2)) = archetypes w' \<and>
        listeners (snd (createArchetype w' names2)) = listeners w' \<and>
        notified (snd (createArchetype w' names2)) = notified w'"
    if "map_of (archetypes w') ?a \<noteq> None"
  proof -
    from that same
    have "map_of (archetypes w') (fst (createArchetype w' names2)) \<noteq> None" by simp
    from arg_cong [OF createArchetype_registered [OF this], of archetypes]
      arg_cong [OF createArchetype_registered [OF this], of listeners]
      arg_cong [OF createArchetype_registered [OF this], of notified]
    show ?thesis by simp
  qed
  with same r show ?thesis by blast
qed

theorem createArchetype_same_object_witness:
  "perform_all [] (createWorld example_objects) = Inr (createWorld example_objects) \<and>
   perform_all [Subscribe 0 5, Immediately (CmdAddEntity 1), Mutate 1 []]
       (snd (createArchetype (createWorld example_objects) [''a'', ''b'']))
     = Inr populated_world \<and>
   set [''b'', ''a'', ''a''] = set [''a'', ''b''] \<and>
   Clear \<notin> set [Subscribe 0 5, Immediately (CmdAddEntity 1), Mutate 1 []] \<and>
   fst (createArchetype populated_world [''b'', ''a'', ''a''])
     = fst (createArchetype (createWorld example_objects) [''a'', ''b'']) \<and>
   archetypes populated_world = [(0, [1])] \<and>
   listeners populated_world 0 = Some [5] \<and>
   notified populated_world = [(0, [5])] \<and>
   filter (\<lambda>entity. entityIsArchetype (objects populated_world entity) [''a'', ''b''])
     (entities populated_world) = [] \<and>
   archetypes (snd (createArchetype populated_world [''b'', ''a'', ''a''])) = [(0, [1])] \<and>
   listeners (snd (createArchetype populated_world [''b'', ''a'', ''a''])) 0 = Some [5] \<and>
   notified (snd (createArchetype populated_world [''b'', ''a'', ''a''])) = [(0, [5])]"
proof -
  have 1: "perform_all [] (createWorld example_objects) = Inr (createWorld example_objects)"
    by simp
  have 2: "perform_all [Subscribe 0 5, Immediately (CmdAddEntity 1), Mutate 1 []]
       (snd (createArchetype (createWorld example_objects) [''a'', ''b'']))
     = Inr populated_world"
    by (simp add: ecs_defs populated_world_def Let_def)
  have 3: "set [''b'', ''a'', ''a''] = set [''a'', ''b'']" by auto
  have 4: "Clear \<notin> set [Subscribe 0 5, Immediately (CmdAddEntity 1), Mutate 1 []]" by simp
  have 5: "archetypes populated_world = [(0, [1])]" "listeners populated_world 0 = Some [5]"
    "notified populated_world = [(0, [5])]"
    "filter (\<lambda>entity. entityIsArchetype (objects populated_world entity) [''a'', ''b''])
       (entities populated_world) = []"
    by (simp_all add: ecs_defs populated_world_def Let_def)
  from createArchetype_same_object [OF 1 2 3] 4 5
  have "fst (createArchetype populated_world [''b'', ''a'', ''a''])
     = fst (createArchetype (createWorld example_objects) [''a'', ''b'']) \<and>
   archetypes (snd (createArchetype populated_world [''b'', ''a'', ''a''])) = [(0, [1])] \<and>
   listeners (snd (createArchetype populated_world [''b'', ''a'', ''a''])) 0 = Some [5] \<and>
   notified (snd (createArchetype populated_world [''b'', ''a'', ''a''])) = [(0, [5])]"
    by simp
  with 1 2 3 4 5 show ?thesis by simp
qed

section \<open>Adding an entity\<close>

text \<open>
  Claim C4 as stated fails for the function named \<^verbatim>\<open>addEntity\<close>, the deferred one: called
  with an entity that carries an identifier it does not fail, it queues the command and
  returns; called with an entity without an identifier, it returns the entity without
  an identifier.
\<close>

theorem addEntity_deferred_counterexample:
  "has_property ''id'' (objects (createWorld identified_objects) 1) \<and>
   addEntity (createWorld identified_objects) 1
     = (1, (createWorld identified_objects)\<lparr> queue := [CmdAddEntity 1] \<rparr>) \<and>
   \<not> has_property ''id'' (objects (createWorld identified_objects) 2) \<and>
   \<not> has_property ''id'' (objects (snd (addEntity (createWorld identified_objects) 2)) 2)"
  by (simp add: ecs_defs identified_objects_def)

text \<open>
  Claim C4, amended: in a world reached by any calls, \<^verbatim>\<open>immediately.addEntity\<close> fails
  with DuplicateIdentifier for an entity that carries an identifier; for an entity
  without one it returns the same entity, which then carries the next identifier of the
  store, and a repetition of the call fails with DuplicateIdentifier. The deferred
  \<^verbatim>\<open>addEntity\<close> never fails and assigns nothing: it queues the command and returns the
  entity; the flush that executes the command for an entity carrying an identifier
  fails with DuplicateIdentifier.
\<close>

theorem addEntity_identifier:
  assumes "perform_all calls (createWorld objs) = Inr w"
  shows "(has_property ''id'' (objects w entity) \<longrightarrow>
            immediately_addEntity w entity = Inl DuplicateIdentifier) \<and>
         (\<not> has_property ''id'' (objects w entity) \<longrightarrow>
            (\<exists>w'. immediately_addEntity w entity = Inr (entity, w') \<and>
                  property (objects w' entity) ''id'' = JNum (nextId w) \<and>
                  nextId w' = nextId w + 1 \<and>
                  immediately_addEntity w' entity = Inl DuplicateIdentifier)) \<and>
         addEntity w entity = (entity, w\<lparr> queue := queue w @ [CmdAddEntity entity] \<rparr>) \<and>
         (has_property ''id'' (objects w entity) \<longrightarrow>
            flush (snd (addEntity (w\<lparr> queue := [] \<rparr>) entity)) = Inl DuplicateIdentifier)"
proof -
  have wf: "well_formed w" by (rule reachable_well_formed [OF assms])
  have 1: "immediately_addEntity w entity = Inl DuplicateIdentifier"
    if "has_property ''id'' (objects w entity)"
    using that by (rule immediately_addEntity_duplicate)
  have 2: "\<exists>w'. immediately_addEntity w entity = Inr (entity, w') \<and>
                  property (objects w' entity) ''id'' = JNum (nextId w) \<and>
                  nextId w' = nextId w + 1 \<and>
                  immediately_addEntity w' entity = Inl DuplicateIdentifier"
    if "\<not> has_property ''id'' (objects w entity)"
  proof -
    from immediately_addEntity_ok [OF wf that] obtain w'
      where r: "immediately_addEntity w entity = Inr (entity, w')"
        and o: "objects w' = (objects w)(entity := assign ''id'' (JNum (nextId w)) (objects w entity))"
        and n: "nextId w' = nextId w + 1" by blast
    have "property (objects w' entity) ''id'' = JNum (nextId w)"
      by (simp add: o property_assign)
    moreover have "has_property ''id'' (objects w' entity)"
      by (simp add: o has_property_assign)
    then have "immediately_addEntity w' entity = Inl DuplicateIdentifier"
      by (rule immediately_addEntity_duplicate)
    ultimately show ?thesis using r n by blast
  qed
  have 3: "addEntity w entity = (entity, w\<lparr> queue := queue w @ [CmdAddEntity entity] \<rparr>)"
    by (simp add: addEntity_def queue_add_def)
  have 4: "flush (snd (addEntity (w\<lparr> queue := [] \<rparr>) entity)) = Inl DuplicateIdentifier"
    if "has_property ''id'' (objects w entity)"
    using that
    by (simp add: addEntity_def queue_add_def flush_def queue_flush_def immediately_addEntity_def)
  from 1 2 3 4 show ?thesis by blast
qed

theorem addEntity_identifier_witness:
  "perform_all [] (createWorld identified_objects) = Inr (createWorld identified_objects) \<and>
   has_property ''id'' (objects (createWorld identified_objects) 1) \<and>
   immediately_addEntity (createWorld identified_objects) 1 = Inl DuplicateIdentifier \<and>
   flush (snd (addEntity ((createWorld identified_objects)\<lparr> queue := [] \<rparr>) 1))
     = Inl DuplicateIdentifier \<and>
   \<not> has_property ''id'' (objects (createWorld identified_objects) 2) \<and>
   (\<exists>w'. immediately_addEntity (createWorld identified_objects) 2 = Inr (2, w') \<and>
         property (objects w' 2) ''id'' = JNum 1 \<and>
         immediately_addEntity w' 2 = Inl DuplicateIdentifier)"
proof -
  have h: "perform_all [] (createWorld identified_objects) = Inr (createWorld identified_objects)"
    by simp
  have h1: "has_property ''id'' (objects (createWorld identified_objects) 1)"
    and h2: "\<not> has_property ''id'' (objects (createWorld identified_objects) 2)"
    and n: "nextId (createWorld identified_objects) = 1"
    by (simp_all add: createWorld_def identified_objects_def has_property_def)
  from addEntity_identifier [OF h, of 1] h1
  have "immediately_addEntity (createWorld identified_objects) 1 = Inl DuplicateIdentifier"
    and "flush (snd (addEntity ((createWorld identified_objects)\<lparr> queue := [] \<rparr>) 1))
           = Inl DuplicateIdentifier"
    by simp_all
  moreover from addEntity_identifier [OF h, of 2] h2 n
  have "\<exists>w'. immediately_addEntity (createWorld identified_objects) 2 = Inr (2, w') \<and>
         property (objects w' 2) ''id'' = JNum 1 \<and>
         immediately_addEntity w' 2 = Inl DuplicateIdentifier"
    by auto
  ultimately show ?thesis using h h1 h2 by blast
qed

section \<open>Deferred mutations and the flush\<close>

text \<open>
  Claim C6 as stated fails. A flush does not always apply all queued commands: the
  queued \<^verbatim>\<open>addEntity\<close> of an entity that carries an identifier throws, as
  \<^verbatim>\<open>immediately.addEntity\<close> does, and the flush ends with DuplicateIdentifier before
  the command queued after it. And listeners are invoked without a membership change: in
  the world with the archetype \<^verbatim>\<open>(a, b)\<close>, callback 5 and no entity, the flushed
  \<^verbatim>\<open>removeComponent\<close> of \<^verbatim>\<open>a\<close> from entity 2 leaves the index empty, as it was, and
  invokes the listeners of the archetype.
\<close>

theorem flush_counterexample:
  "has_property ''id'' (objects (createWorld identified_objects) 1) \<and>
   immediately_addEntity (createWorld identified_objects) 1 = Inl DuplicateIdentifier \<and>
   queue (fold deferred [CmdAddEntity 1, CmdAddEntity 2] (createWorld identified_objects))
     = [CmdAddEntity 1, CmdAddEntity 2] \<and>
   flush (fold deferred [CmdAddEntity 1, CmdAddEntity 2] (createWorld identified_objects))
     = Inl DuplicateIdentifier \<and>
   index_of observed_world 0 = [] \<and> notified observed_world = [] \<and>
   (case flush (fold deferred [CmdRemoveComponent 2 [''a'']] observed_world) of
      Inl _ \<Rightarrow> False
    | Inr w' \<Rightarrow> index_of w' 0 = [] \<and> notified w' = [(0, [5])])"
  by (simp add: ecs_defs identified_objects_def Let_def)

text \<open>
  Claim C6, amended. In a world reached by any calls, deferred calls change the queue
  only: the master list, the indices, the entity objects, the listener registries and
  the notifications are as before, and the commands are appended to the queue in the
  order of the calls. The flush after them does what the immediate functions do, called
  in the order of the queue for the commands queued before and by these calls, and then
  empties the queue; it ends early only with the DuplicateIdentifier of a queued
  \<^verbatim>\<open>addEntity\<close>, and a flush that returns leaves the queue empty. Each command so
  executed invokes no listeners twice and invokes the listeners of every archetype whose
  index it changes. When moreover the store is consistent and the queued commands are
  clean, the flush returns and leaves a consistent store, and each command, at its turn,
  updates the store: it gives the properties it names to its entity object and touches
  no other object, it adds its entity to the master list or removes it from it, every
  index holds exactly the entities that satisfy its archetype afterwards, and the
  listeners of an archetype are invoked once if the command changed the index of the
  archetype and not at all if it did not.
\<close>

theorem deferred_until_flush:
  assumes "perform_all calls (createWorld objs) = Inr w"
  shows "entities (fold deferred cs w) = entities w \<and>
         archetypes (fold deferred cs w) = archetypes w \<and>
         objects (fold deferred cs w) = objects w \<and>
         listeners (fold deferred cs w) = listeners w \<and>
         notified (fold deferred cs w) = notified w \<and>
         queue (fold deferred cs w) = queue w @ cs \<and>
         flush (fold deferred cs w) =
           (case perform_all (map Immediately (queue w @ cs)) (fold deferred cs w) of
              Inl e \<Rightarrow> Inl e
            | Inr w' \<Rightarrow> Inr (w'\<lparr> queue := [] \<rparr>)) \<and>
         (case flush (fold deferred cs w) of
            Inl e \<Rightarrow> e = DuplicateIdentifier \<and> list_ex is_CmdAddEntity (queue w @ cs)
          | Inr w' \<Rightarrow> queue w' = []) \<and>
         notifies_each_change (queue w @ cs) (fold deferred cs w) \<and>
         (consistent w \<and> clean_all (queue w @ cs) (fold deferred cs w) \<longrightarrow>
            (\<exists>w'. flush (fold deferred cs w) = Inr w' \<and> consistent w') \<and>
            updates_all (queue w @ cs) (fold deferred cs w))"
proof -
  define v where "v = fold deferred cs w"
  have v: "v = w\<lparr> queue := queue w @ cs \<rparr>" by (simp add: v_def fold_deferred)
  have q: "queue v = queue w @ cs" by (simp add: v)
  have wf: "well_formed v"
    using reachable_well_formed [OF assms] by (simp add: v well_formed_def)
  have f: "flush v = (case execute_all (queue w @ cs) v of
                        Inl e \<Rightarrow> Inl e
                      | Inr w' \<Rightarrow> Inr (w'\<lparr> queue := [] \<rparr>))"
    by (simp add: flush_def queue_flush_def q)
  have 1: "flush v = (case perform_all (map Immediately (queue w @ cs)) v of
              Inl e \<Rightarrow> Inl e
            | Inr w' \<Rightarrow> Inr (w'\<lparr> queue := [] \<rparr>))"
    by (simp only: f perform_all_immediately)
  have 2: "(case flush v of
            Inl e \<Rightarrow> e = DuplicateIdentifier \<and> list_ex is_CmdAddEntity (queue w @ cs)
          | Inr w' \<Rightarrow> queue w' = [])"
  proof (cases "execute_all (queue w @ cs) v")
    case (Inl e)
    from execute_all_error [OF wf Inl] obtain entity
      where "e = DuplicateIdentifier" "CmdAddEntity entity \<in> set (queue w @ cs)" by blast
    then have "e = DuplicateIdentifier \<and> list_ex is_CmdAddEntity (queue w @ cs)"
      unfolding list_ex_iff by force
    with Inl show ?thesis by (simp add: f)
  next
    case (Inr w')
    then show ?thesis by (simp add: f)
  qed
  have 3: "notifies_each_change (queue w @ cs) v"
    by (rule notifies_each_change_holds [OF wf])
  have 4: "(\<exists>w'. flush v = Inr w' \<and> consistent w') \<and> updates_all (queue w @ cs) v"
    if "consistent w" "clean_all (queue w @ cs) v"
  proof -
    from that(1) have "consistent v" by (simp add: v consistent_queue)
    from updates_all_holds [OF this that(2)]
    obtain w' where u: "updates_all (queue w @ cs) v"
      and e: "execute_all (queue w @ cs) v = Inr w'" and c: "consistent w'" by blast
    from e c have "flush v = Inr (w'\<lparr> queue := [] \<rparr>) \<and> consistent (w'\<lparr> queue := [] \<rparr>)"
      by (simp add: f consistent_queue)
    with u show ?thesis by blast
  qed
  have 5: "entities v = entities w \<and> archetypes v = archetypes w \<and> objects v = objects w \<and>
           listeners v = listeners w \<and> notified v = notified w \<and> queue v = queue w @ cs"
    by (simp add: v)
  from 1 2 3 4 5 show ?thesis unfolding v_def by blast
qed

theorem deferred_until_flush_witness:
  "perform_all [CreateArchetype [''a'', ''b''], Subscribe 0 5] (createWorld example_objects)
     = Inr observed_world \<and>
   consistent observed_world \<and>
   clean_all example_commands (fold deferred example_commands observed_world) \<and>
   (case flush (fold deferred example_commands observed_world) of
      Inl _ \<Rightarrow> False
    | Inr w' \<Rightarrow> queue w' = [] \<and> entities w' = [1] \<and> index_of w' 0 = [] \<and>
                 notified w' = [(0, [5]), (0, [5]), (0, [5]), (0, [5])] \<and> consistent w') \<and>
   updates_all example_commands (fold deferred example_commands observed_world)"
proof -
  have 1: "perform_all [CreateArchetype [''a'', ''b''], Subscribe 0 5] (createWorld example_objects)
     = Inr observed_world"
    by (simp add: ecs_defs Let_def)
  have 2: "queue observed_world = []"
    by (simp add: ecs_defs Let_def)
  have 3: "consistent observed_world"
    by (simp add: consistent_def well_formed_def ecs_defs Let_def)
  have 4: "clean_all example_commands (fold deferred example_commands observed_world)"
    by (simp add: example_commands_def ecs_defs Let_def)
  have 5: "(case flush (fold deferred example_commands observed_world) of
      Inl _ \<Rightarrow> False
    | Inr w' \<Rightarrow> queue w' = [] \<and> entities w' = [1] \<and> index_of w' 0 = [] \<and>
                 notified w' = [(0, [5]), (0, [5]), (0, [5]), (0, [5])])"
    by (simp add: example_commands_def ecs_defs Let_def)
  have h: "consistent observed_world \<and>
           clean_all (queue observed_world @ example_commands)
             (fold deferred example_commands observed_world)"
    using 3 4 by (simp add: 2)
  from deferred_until_flush [OF 1, of example_commands] h
  have r: "(\<exists>w'. flush (fold deferred example_commands observed_world) = Inr w' \<and> consistent w') \<and>
           updates_all (queue observed_world @ example_commands)
             (fold deferred example_commands observed_world)"
    by blast
  from r have 6: "\<exists>w'. flush (fold deferred example_commands observed_world) = Inr w' \<and> consistent w'"
    by blast
  from r have 7: "updates_all example_commands (fold deferred example_commands observed_world)"
    by (simp add: 2)
  from 6 obtain w' where 8: "flush (fold deferred example_commands observed_world) = Inr w'"
    and 9: "consistent w'" by blast
  from 5 8 9 have "(case flush (fold deferred example_commands observed_world) of
      Inl _ \<Rightarrow> False
    | Inr w' \<Rightarrow> queue w' = [] \<and> entities w' = [1] \<and> index_of w' 0 = [] \<and>
                 notified w' = [(0, [5]), (0, [5]), (0, [5]), (0, [5])] \<and> consistent w')"
    by simp
  with 1 3 4 7 show ?thesis by simp
qed

section \<open>Teardown and lookups of unregistered archetypes\<close>

text \<open>
  Claim C9. After \<^verbatim>\<open>clear()\<close> the master list, the map of indices, the map of listener
  registries and the queue are empty; no queued command has run (the entity objects, the
  identifier counter and the record of notifications are as before); \<^verbatim>\<open>get\<close> of any
  archetype is absent, until the archetype is created again, which gives an empty index.
\<close>

theorem clear_empties_the_store:
  "entities (clear w) = [] \<and> archetypes (clear w) = [] \<and> listeners (clear w) = Map.empty \<and>
   queue (clear w) = [] \<and>
   objects (clear w) = objects w \<and> notified (clear w) = notified w \<and> nextId (clear w) = nextId w \<and>
   fst (get (clear w) archetype) = None \<and>
   fst (getWith (clear w) components) = Some []"
  by (simp add: clear_def queue_clear_def get_def getWith_def createArchetype_def fetch_def Let_def
        split: option.splits prod.splits)

text \<open>
  Claim C10. For an archetype that is not a key of the map of indices, \<^verbatim>\<open>get\<close> returns
  \<^verbatim>\<open>undefined\<close> and leaves the world as it is, and \<^verbatim>\<open>getOne\<close> throws a \<^verbatim>\<open>TypeError\<close>
  (so it changes nothing either).
\<close>

theorem get_of_unregistered_archetype:
  "map_of (archetypes w) archetype = None \<Longrightarrow>
     get w archetype = (None, w) \<and> getOne w archetype = Inl TypeError"
  by (simp add: get_def getOne_def)

theorem get_of_unregistered_archetype_witness:
  "map_of (archetypes (clear (createWorld example_objects))) 7 = None \<and>
   get (clear (createWorld example_objects)) 7 = (None, clear (createWorld example_objects)) \<and>
   getOne (clear (createWorld example_objects)) 7 = Inl TypeError"
  using get_of_unregistered_archetype [of "clear (createWorld example_objects)" 7]
  by (simp add: clear_def queue_clear_def)

section \<open>Memoized predicates\<close>

text \<open>
  Claim C7. Two calls of the same constructor among \<^verbatim>\<open>all\<close>, \<^verbatim>\<open>any\<close>, \<^verbatim>\<open>none\<close>
  whose lists of names are equal after sorting, deduplicating and filtering out the
  empty names, and two calls of \<^verbatim>\<open>not\<close> with the same function, return the same
  function object, whatever calls of the constructors come between them.
\<close>

theorem constructors_memoized:
  assumes "equivalent c1 c2"
    and "construct c1 m = Inr (f, m1)"
    and "construct_all between m1 = Inr m2"
  shows "\<exists>m3. construct c2 m2 = Inr (f, m3)"
proof (rule construct_cached)
  from construct_stores [OF assms(2)] construct_all_keeps [OF assms(3), of c1 f]
  have "consulted c1 m2 = Some f" by simp
  then show "consulted c2 m2 = Some f"
    using equivalent_consulted [OF assms(1), of m2] by simp
next
  fix p
  assume "c2 = CallNot p"
  with assms(1) have c1: "c1 = CallNot p" by (simp add: equivalent_Not)
  with assms(2) have "function_objects m p \<noteq> None"
    by (auto simp: not_p_def split: option.splits)
  with construct_keeps_functions [OF assms(2), of p] construct_all_keeps [OF assms(3), of _ _ p]
  show "function_objects m2 p \<noteq> None" by blast
qed

theorem constructors_memoized_witness:
  "equivalent (CallAll [''b'', ''a'', '''']) (CallAll [''a'', ''b'', ''a'']) \<and>
   construct (CallAll [''b'', ''a'', '''']) example_module
     = Inr (fst (all example_module [''b'', ''a'', '''']),
            snd (all example_module [''b'', ''a'', ''''])) \<and>
   construct_all [CallAny [''a'']] (snd (all example_module [''b'', ''a'', '''']))
     = Inr (snd (any (snd (all example_module [''b'', ''a'', ''''])) [''a''])) \<and>
   (\<exists>m3. construct (CallAll [''a'', ''b'', ''a''])
            (snd (any (snd (all example_module [''b'', ''a'', ''''])) [''a'']))
          = Inr (fst (all example_module [''b'', ''a'', '''']), m3))"
proof -
  have 1: "equivalent (CallAll [''b'', ''a'', '''']) (CallAll [''a'', ''b'', ''a''])"
    by (simp add: canonical_def)
  have 2: "construct (CallAll [''b'', ''a'', '''']) example_module
     = Inr (fst (all example_module [''b'', ''a'', '''']),
            snd (all example_module [''b'', ''a'', '''']))"
    by simp
  have 3: "construct_all [CallAny [''a'']] (snd (all example_module [''b'', ''a'', '''']))
     = Inr (snd (any (snd (all example_module [''b'', ''a'', ''''])) [''a'']))"
    by (simp add: split_beta)
  from constructors_memoized [OF 1 2 3] 1 2 3 show ?thesis by blast
qed

section \<open>What the predicates decide\<close>

text \<open>
  Claim C8 as stated fails for a list with an empty name: \<^verbatim>\<open>key\<close> filters the empty
  names out, so \<^verbatim>\<open>all("")\<close> has the key of \<^verbatim>\<open>all()\<close>, and after a call of \<^verbatim>\<open>all()\<close>
  it returns the function of that call, which is true of every entity. On the entity
  \<^verbatim>\<open>{}\<close> the listed component has no defined value, yet the predicate returns true.
\<close>

theorem all_with_empty_name_counterexample:
  "call_function (snd (all (snd (all (stores []) [])) ['''']))
                 (fst (all (snd (all (stores []) [])) [''''])) []
     = Inr True \<and>
   property [] '''' = JUndefined"
  by (simp add: all_def memoize_def new_function_def call_function_def stores_def property_def
        key_defs Let_def)

text \<open>
  Claim C8, amended. In a module reached from its initial state by calls of the
  constructors: as long as no call of \<^verbatim>\<open>all\<close>, \<^verbatim>\<open>any\<close> or \<^verbatim>\<open>none\<close>, this one
  included, was given an empty name, the predicate returned by \<^verbatim>\<open>all(...names)\<close> is
  true of an entity iff every listed component has a defined value on it, the one
  returned by \<^verbatim>\<open>any(...names)\<close> iff at least one has, the one returned by
  \<^verbatim>\<open>none(...names)\<close> iff none has; and in every such module, with or without empty
  names, \<^verbatim>\<open>not(p)\<close> returns a predicate whose value on an entity is the negation of
  the value of \<open>p\<close>.
\<close>

theorem predicates_decide:
  assumes "construct_all calls (stores fs) = Inr m"
  shows "(list_all no_empty_name calls \<and> [] \<notin> set names \<longrightarrow>
            call_function (snd (all m names)) (fst (all m names)) entity
              = Inr (list_all (\<lambda>c. property entity c \<noteq> JUndefined) names) \<and>
            call_function (snd (any m names)) (fst (any m names)) entity
              = Inr (list_ex (\<lambda>c. property entity c \<noteq> JUndefined) names) \<and>
            call_function (snd (none m names)) (fst (none m names)) entity
              = Inr (list_all (\<lambda>c. property entity c = JUndefined) names)) \<and>
         (call_function m p entity = Inr v \<longrightarrow>
            (\<exists>f m'. not_p m p = Inr (f, m') \<and> call_function m' f entity = Inr (\<not> v)))"
proof -
  from construct_all_sound [OF _ assms] stores_sound [of fs]
  have s: "sound_stores m" and n: "list_all no_empty_name calls \<Longrightarrow> sound_names m"
    by simp_all
  have "\<exists>f m'. not_p m p = Inr (f, m') \<and> call_function m' f entity = Inr (\<not> v)"
    if "call_function m p entity = Inr v"
  proof -
    from that obtain b where b: "function_objects m p = Some b" and v: "v = b entity"
      by (auto simp: call_function_def split: option.splits)
    from b obtain f m' where r: "not_p m p = Inr (f, m')"
      by (cases "stores_not m p") (auto simp: not_p_unfold)
    from not_p_sound(3) [OF s r b] v have "call_function m' f entity = Inr (\<not> v)"
      by (simp add: call_function_def)
    with r show ?thesis by blast
  qed
  moreover have "call_function (snd (all m names)) (fst (all m names)) entity
              = Inr (list_all (\<lambda>c. property entity c \<noteq> JUndefined) names) \<and>
            call_function (snd (any m names)) (fst (any m names)) entity
              = Inr (list_ex (\<lambda>c. property entity c \<noteq> JUndefined) names) \<and>
            call_function (snd (none m names)) (fst (none m names)) entity
              = Inr (list_all (\<lambda>c. property entity c = JUndefined) names)"
    if "list_all no_empty_name calls" "[] \<notin> set names"
    using all_decides(2) [OF s n [OF that(1)] that(2)] any_decides(2) [OF s n [OF that(1)] that(2)]
      none_decides(2) [OF s n [OF that(1)] that(2)]
    by simp
  ultimately show ?thesis by blast
qed

theorem predicates_decide_witness:
  "construct_all [CallAll [''a'']] (stores []) = Inr example_module \<and>
   list_all no_empty_name [CallAll [''a'']] \<and> [] \<notin> set [''a'', ''b''] \<and>
   call_function (snd (all example_module [''a'', ''b''])) (fst (all example_module [''a'', ''b'']))
       [(''a'', JNum 1)] = Inr False \<and>
   call_function (snd (any example_module [''a'', ''b''])) (fst (any example_module [''a'', ''b'']))
       [(''a'', JNum 1)] = Inr True \<and>
   call_function (snd (none example_module [''a'', ''b''])) (fst (none example_module [''a'', ''b'']))
       [(''a'', JNum 1)] = Inr False \<and>
   call_function example_module 0 [(''a'', JNum 1)] = Inr True \<and>
   (\<exists>f m'. not_p example_module 0 = Inr (f, m') \<and>
           call_function m' f [(''a'', JNum 1)] = Inr False)"
proof -
  have 1: "construct_all [CallAll [''a'']] (stores []) = Inr example_module"
    by (simp add: example_module_def split_beta)
  have 2: "list_all no_empty_name [CallAll [''a'']] \<and> [] \<notin> set [''a'', ''b'']"
    by simp
  have 3: "call_function example_module 0 [(''a'', JNum 1)] = Inr True"
    by (simp add: example_module_def all_def memoize_def new_function_def call_function_def
          stores_def property_def Let_def)
  from predicates_decide [OF 1, of "[''a'', ''b'']" "[(''a'', JNum 1)]" 0 True] 1 2 3
  show ?thesis by (simp add: property_def)
qed

end
